theory Spec2Isabelle
  imports Main "HOL-Library.Multiset" "HOL-Library.Signed_Division"
begin

section \<open>Constants and data of the word game\<close>

text \<open>
  A word is a C string: the characters before the terminating NUL, here a HOL
  \<open>string\<close> without the NUL. The global array \<open>wordList\<close> together with
  its fill count \<open>wordListLen\<close> is one HOL list, the filled prefix of the
  array; where the code passes the count as a parameter of its own
  (\<open>mergeSort\<close>, \<open>binarySearch\<close>), the model passes it too. C's \<open>long\<close>
  and \<open>int\<close> are \<open>int\<close>; \<open>sdiv\<close> and \<open>smod\<close> are C's truncating
  \<open>/\<close> and \<open>%\<close>.
\<close>

definition WORD_LEN :: nat where
  "WORD_LEN = 5"

definition WORD_LIMIT :: int where
  "WORD_LIMIT = 100000"

definition MULTIPLIER :: int where
  "MULTIPLIER = 4611686018453"

definition INITIAL_CAPACITY :: int where
  "INITIAL_CAPACITY = 10"

text \<open>
  Every fatal exit of the lexicon code prints the same message and leaves with
  \<open>EXIT_FAILURE\<close>; the constructors name the exit sites: the checks of
  \<open>readLine\<close>, the limit check of \<open>readWords\<close>, the neighbour check of
  \<open>sort\<close>, and the failed \<open>fopen\<close>. \<open>UsageError\<close> is the exit of
  \<open>printUsageError\<close> in wordle.c.
\<close>

datatype error = InvalidWordFormat | CapacityExceeded | DuplicateWord | CantOpen | UsageError

subsection \<open>strcmp\<close>

text \<open>
  The library's \<open>strcmp\<close>: bytes compared as unsigned values, the first
  difference decides, a proper prefix is smaller. Only the sign of the result is
  fixed by the C standard, and only the sign is used by the code.
\<close>

fun strcmp :: "string \<Rightarrow> string \<Rightarrow> int" where
  "strcmp [] [] = 0"
| "strcmp [] (y # ys) = - 1"
| "strcmp (x # xs) [] = 1"
| "strcmp (x # xs) (y # ys) =
     (if x = y then strcmp xs ys
      else if (of_char x :: nat) < of_char y then - 1 else 1)"

text \<open>
  Strictly ascending order of a word list, as \<open>strcmp\<close> sees it: every
  word is smaller than every later one.
\<close>

definition ascending :: "string list \<Rightarrow> bool" where
  "ascending wordList = sorted_wrt (\<lambda>a b. strcmp a b < 0) wordList"

subsection \<open>lexicon.c: binarySearch and inList\<close>

function binarySearch :: "string list \<Rightarrow> string \<Rightarrow> int \<Rightarrow> int \<Rightarrow> bool" where
  "binarySearch wordList word low high =
     (if low > high then False
      else
        let mid = (low + high) sdiv 2;
            result = strcmp (wordList ! nat mid) word
        in if result = 0 then True
           else if result > 0 then binarySearch wordList word low (mid - 1)
           else binarySearch wordList word (mid + 1) high)"
  by pat_completeness auto
termination
proof (relation "measure (\<lambda>(wordList, word, low, high). nat (high - low + 1))")
  show "wf (measure (\<lambda>(wordList, word, low, high). nat (high - low + 1)))"
    by simp
next
  fix wordList :: "string list" and word :: string and low high mid :: int
  assume "\<not> high < low" and "mid = (low + high) sdiv 2"
  then have "low \<le> mid" and "mid \<le> high"
    by (auto simp: signed_divide_int_def sgn_if)
  then show "((wordList, word, low, mid - 1), (wordList, word, low, high))
      \<in> measure (\<lambda>(wordList, word, low, high). nat (high - low + 1))"
    by simp
next
  fix wordList :: "string list" and word :: string and low high mid :: int
  assume "\<not> high < low" and "mid = (low + high) sdiv 2"
  then have "low \<le> mid" and "mid \<le> high"
    by (auto simp: signed_divide_int_def sgn_if)
  then show "((wordList, word, mid + 1, high), (wordList, word, low, high))
      \<in> measure (\<lambda>(wordList, word, low, high). nat (high - low + 1))"
    by simp
qed

declare binarySearch.simps [simp del]

definition inList :: "string list \<Rightarrow> string \<Rightarrow> bool" where
  "inList wordList word = binarySearch wordList word 0 (int (length wordList) - 1)"

subsection \<open>lexicon.c: merge, copyArray, mergeSort and sort\<close>

text \<open>
  The \<open>while\<close> loop of \<open>merge\<close>, with the two indices and the array being
  written as its state.
\<close>

function merge_loop ::
  "string list \<Rightarrow> int \<Rightarrow> string list \<Rightarrow> int \<Rightarrow> int \<Rightarrow> int \<Rightarrow> int \<Rightarrow> string list \<Rightarrow> string list"
where
  "merge_loop left leftLength right rightLength n leftIndex rightIndex list =
     (if leftIndex + rightIndex < n then
        if rightIndex = rightLength \<or>
           (leftIndex < leftLength \<and>
            strcmp (left ! nat leftIndex) (right ! nat rightIndex) < 0)
        then merge_loop left leftLength right rightLength n (leftIndex + 1) rightIndex
               (list[nat (leftIndex + rightIndex) := left ! nat leftIndex])
        else merge_loop left leftLength right rightLength n leftIndex (rightIndex + 1)
               (list[nat (leftIndex + rightIndex) := right ! nat rightIndex])
      else list)"
  by pat_completeness auto
termination
  by (relation "measure (\<lambda>(left, leftLength, right, rightLength, n, leftIndex, rightIndex, list).
        nat (n - (leftIndex + rightIndex)))") auto

declare merge_loop.simps [simp del]

definition merge ::
  "string list \<Rightarrow> int \<Rightarrow> string list \<Rightarrow> int \<Rightarrow> string list \<Rightarrow> int \<Rightarrow> string list"
where
  "merge left leftLength right rightLength list n =
     merge_loop left leftLength right rightLength n 0 0 list"

text \<open>
  What the loop computes, as a function on the two halves still to be merged:
  the left element goes first when the right half is used up or when it is the
  smaller one, as in the condition of the loop.
\<close>

fun merge_lists :: "string list \<Rightarrow> string list \<Rightarrow> string list" where
  "merge_lists xs [] = xs"
| "merge_lists [] ys = ys"
| "merge_lists (x # xs) (y # ys) =
     (if strcmp x y < 0 then x # merge_lists xs (y # ys) else y # merge_lists (x # xs) ys)"

definition copyArray :: "string list \<Rightarrow> int \<Rightarrow> int \<Rightarrow> string list" where
  "copyArray origList start end =
     (let newListLen = end - start + 1
      in map (\<lambda>i. origList ! nat (i + start)) [0..newListLen - 1])"

text \<open>
  \<open>mergeSort\<close> recurses on both halves unless \<open>n\<close> is 1. Nothing in the
  code stops the recursion for \<open>n = 0\<close>, so the model is a partial function:
  \<open>None\<close> is the call that never returns.
\<close>

partial_function (option) mergeSort :: "string list \<Rightarrow> int \<Rightarrow> string list option" where
  "mergeSort list n =
     (if n \<noteq> 1 then
        let mid = n sdiv 2;
            leftLength = mid;
            rightLength = (if n smod 2 = 0 then mid else mid + 1);
            left = copyArray list 0 (mid - 1);
            right = copyArray list mid (n - 1)
        in Option.bind (mergeSort left leftLength) (\<lambda>left.
           Option.bind (mergeSort right rightLength) (\<lambda>right.
           Some (merge left leftLength right rightLength list n)))
      else Some list)"

text \<open>
  The neighbour scan of \<open>sort\<close>: the first equal pair ends the program.
  The function \<open>sort\<close> of the code is \<open>sort_words\<close> here.
\<close>

function duplicate_scan :: "string list \<Rightarrow> int \<Rightarrow> bool" where
  "duplicate_scan wordList i =
     (if i < int (length wordList) - 1 then
        if strcmp (wordList ! nat i) (wordList ! nat (i + 1)) = 0 then True
        else duplicate_scan wordList (i + 1)
      else False)"
  by pat_completeness auto
termination
  by (relation "measure (\<lambda>(wordList, i). nat (int (length wordList) - 1 - i))") auto

declare duplicate_scan.simps [simp del]

definition sort_words :: "string list \<Rightarrow> (error + string list) option" where
  "sort_words wordList =
     (case mergeSort wordList (int (length wordList)) of
        None \<Rightarrow> None
      | Some sortedList \<Rightarrow>
          Some (if duplicate_scan sortedList 0 then Inl DuplicateWord else Inr sortedList))"

subsection \<open>io.c: readLine\<close>

text \<open>
  The open file is the list of bytes not yet read. \<open>getc\<close> returns the next
  byte as a value in 0..255, or \<open>EOF\<close> at the end. \<open>readLine\<close> stores
  the result in a variable of type \<open>char\<close> before it tests it: the conversion
  is the one of a signed 8-bit \<open>char\<close> (the platforms on which the program
  detects the end of its file at all), so byte 255 and \<open>EOF\<close> both become -1.
\<close>

definition EOF :: int where
  "EOF = - 1"

definition LOWERCASE_A :: int where
  "LOWERCASE_A = 97"

definition LOWERCASE_Z :: int where
  "LOWERCASE_Z = 122"

definition LINE_FEED :: int where
  "LINE_FEED = 10"

definition getc :: "string \<Rightarrow> int \<times> string" where
  "getc fp = (case fp of [] \<Rightarrow> (EOF, []) | c # cs \<Rightarrow> (int (of_char c), cs))"

definition to_char :: "int \<Rightarrow> int" where
  "to_char v = (v + 128) mod 256 - 128"

definition ungetc :: "int \<Rightarrow> string \<Rightarrow> string" where
  "ungetc ch fp = char_of (ch mod 256) # fp"

function readLine_loop :: "string \<Rightarrow> string \<Rightarrow> nat \<Rightarrow> nat \<Rightarrow> error + (string \<times> string)" where
  "readLine_loop fp str n i =
     (if i < n then
        let (c, fp') = getc fp;
            ch = to_char c
        in if ch < LOWERCASE_A \<or> ch > LOWERCASE_Z then Inl InvalidWordFormat
           else readLine_loop fp' (str @ [char_of ch]) n (i + 1)
      else Inr (str, fp))"
  by pat_completeness auto
termination
  by (relation "measure (\<lambda>(fp, str, n, i). n - i)") auto

declare readLine_loop.simps [simp del]

definition readLine :: "string \<Rightarrow> nat \<Rightarrow> error + (bool \<times> string \<times> string)" where
  "readLine fp n =
     (case readLine_loop fp [] n 0 of
        Inl e \<Rightarrow> Inl e
      | Inr (str, fp1) \<Rightarrow>
          let (c, fp2) = getc fp1;
              ch = to_char c
          in if ch = EOF then Inr (False, str, fp2)
             else if ch \<noteq> LINE_FEED then Inl InvalidWordFormat
             else
               let (c', fp3) = getc fp2;
                   ch = to_char c'
               in if ch = EOF then Inr (False, str, fp3)
                  else Inr (True, str, ungetc ch fp3))"

subsection \<open>lexicon.c: readWords\<close>

text \<open>
  The \<open>while\<close> loop of \<open>readWords\<close>. Its state is the file, the words
  stored so far (\<open>wordListLen\<close> is their number) and the capacity of the
  array. Storing at index \<open>wordListLen++\<close> appends to the filled prefix.
\<close>

function readWords_loop :: "string \<Rightarrow> string list \<Rightarrow> int \<Rightarrow> error + (string list \<times> int)" where
  "readWords_loop fp wordList capacity =
     (case readLine fp WORD_LEN of
        Inl e \<Rightarrow> Inl e
      | Inr (getAnotherLine, str, fp') \<Rightarrow>
          let wordListLen = int (length wordList);
              capacity' =
                (if wordListLen = capacity
                 then (if capacity > WORD_LIMIT sdiv 2 then WORD_LIMIT else capacity * 2)
                 else capacity)
          in if wordListLen = WORD_LIMIT then Inl CapacityExceeded
             else if getAnotherLine then readWords_loop fp' (wordList @ [str]) capacity'
             else Inr (wordList @ [str], capacity'))"
  by pat_completeness auto
termination
proof (relation "measure (\<lambda>(fp, wordList, capacity). length fp)")
  show "wf (measure (\<lambda>(fp, wordList, capacity). length fp))"
    by simp
next
  fix fp :: string and wordList :: "string list" and capacity :: int
    and x2 :: "bool \<times> string \<times> string" and getAnotherLine :: bool
    and y :: "string \<times> string" and str fp' :: string
    and wordListLen capacity' :: int
  assume rl: "readLine fp WORD_LEN = Inr x2" and x2: "(getAnotherLine, y) = x2"
    and y: "(str, fp') = y" and more: getAnotherLine
  have shrink: "length fp1 \<le> length fp0"
    if "readLine_loop fp0 s n i = Inr (s1, fp1)" for fp0 s n i s1 fp1
    using that
  proof (induction fp0 s n i rule: readLine_loop.induct)
    case (1 fp0 s n i)
    show ?case
    proof (cases "i < n")
      case True
      obtain c fp2 where g: "getc fp0 = (c, fp2)"
        by (cases "getc fp0")
      have len: "length fp2 \<le> length fp0"
        using g by (auto simp: getc_def split: list.splits)
      have ok: "\<not> (to_char c < LOWERCASE_A \<or> to_char c > LOWERCASE_Z)"
        using "1.prems" True g
        by (subst (asm) readLine_loop.simps) (auto simp: Let_def split: if_splits)
      have "readLine_loop fp2 (s @ [char_of (to_char c)]) n (i + 1) = Inr (s1, fp1)"
        using "1.prems" True g ok
        by (subst (asm) readLine_loop.simps) (simp add: Let_def)
      from "1.IH" [OF True refl g [symmetric] refl ok this] len show ?thesis
        by simp
    next
      case False
      with "1.prems" show ?thesis
        by (subst (asm) readLine_loop.simps) simp
    qed
  qed
  from rl x2 y more obtain fp1 where
    loop: "readLine_loop fp [] WORD_LEN 0 = Inr (str, fp1)"
    and rest: "length fp' < length fp1"
    by (auto simp: readLine_def getc_def ungetc_def to_char_def EOF_def LINE_FEED_def Let_def
          split: sum.splits prod.splits if_splits list.splits)
  from shrink [OF loop] rest
  show "((fp', wordList @ [str], capacity'), (fp, wordList, capacity))
      \<in> measure (\<lambda>(fp, wordList, capacity). length fp)"
    by simp
qed

declare readWords_loop.simps [simp del]

definition readWords :: "string option \<Rightarrow> error + string list" where
  "readWords file =
     (case file of
        None \<Rightarrow> Inl CantOpen
      | Some fp \<Rightarrow>
          (case readWords_loop fp [] INITIAL_CAPACITY of
             Inl e \<Rightarrow> Inl e
           | Inr (wordList, capacity) \<Rightarrow> Inr wordList))"

subsection \<open>The word source format of the specification\<close>

text \<open>
  A record is \<open>WORD_LEN\<close> lowercase ASCII letters followed by a line feed;
  a word source is a sequence of records, and its final record may omit the line
  feed.
\<close>

definition lowercase :: "char \<Rightarrow> bool" where
  "lowercase c \<longleftrightarrow> LOWERCASE_A \<le> int (of_char c) \<and> int (of_char c) \<le> LOWERCASE_Z"

definition valid_word :: "string \<Rightarrow> bool" where
  "valid_word w \<longleftrightarrow> length w = WORD_LEN \<and> list_all lowercase w"

definition records :: "string list \<Rightarrow> string" where
  "records ws = concat (map (\<lambda>w. w @ [CHR 0x0A]) ws)"

definition word_source :: "string list \<Rightarrow> bool \<Rightarrow> string" where
  "word_source ws final_line_feed = (if final_line_feed then records ws else butlast (records ws))"

text \<open>
  The capacities the array of \<open>readWords\<close> goes through: from
  \<open>INITIAL_CAPACITY\<close>, doubled, and \<open>WORD_LIMIT\<close> at the end.
\<close>

definition capacities :: "int list" where
  "capacities = [10, 20, 40, 80, 160, 320, 640, 1280, 2560, 5120, 10240, 20480, 40960, 81920,
     100000]"

text \<open>The first of these capacities that holds a given number of words.\<close>

definition least_capacity :: "int \<Rightarrow> int" where
  "least_capacity len =
     (case find (\<lambda>c. len \<le> c) capacities of Some c \<Rightarrow> c | None \<Rightarrow> WORD_LIMIT)"

subsection \<open>lexicon.c: chooseWord\<close>

text \<open>
  The index is computed in \<open>long\<close>: \<open>s64\<close> is what a product that leaves
  the signed 64-bit range becomes on the machine. A division by zero and a read
  outside the filled array have no defined result: \<open>None\<close>.
\<close>

definition s64 :: "int \<Rightarrow> int" where
  "s64 x = (x + 2 ^ 63) mod 2 ^ 64 - 2 ^ 63"

definition randomIndex :: "int \<Rightarrow> int \<Rightarrow> int" where
  "randomIndex seed wordListLen = s64 ((seed smod wordListLen) * MULTIPLIER) smod wordListLen"

definition chooseWord :: "int \<Rightarrow> string list \<Rightarrow> string option" where
  "chooseWord seed wordList =
     (let wordListLen = int (length wordList)
      in if wordListLen = 0 then None
         else
           let i = randomIndex seed wordListLen
           in if 0 \<le> i \<and> i < wordListLen
              then Some (take WORD_LEN (wordList ! nat i))
              else None)"

subsection \<open>wordle.c: processWord\<close>

text \<open>
  What \<open>processWord\<close> writes to the terminal: a colour escape sequence
  (\<open>colorGreen\<close>, \<open>colorYellow\<close>, \<open>colorDefault\<close>) or one character.
\<close>

datatype tty_output = ColorGreen | ColorYellow | ColorDefault | Putc char

definition green :: int where
  "green = 0"

definition yellow :: int where
  "yellow = 1"

definition defaultColor :: int where
  "defaultColor = 2"

text \<open>
  The loops of \<open>processWord\<close> run while \<open>userWord[i]\<close> (or
  \<open>targetWord[j]\<close>) is not the NUL, that is, over the indices below the
  length of the word. The first loop fills the truth table; the table is a local
  array without initialiser, so its content before the loop is a parameter.
\<close>

function truthTable_loop :: "string \<Rightarrow> string \<Rightarrow> nat \<Rightarrow> bool list \<Rightarrow> bool list" where
  "truthTable_loop userWord targetWord i targetLetterUsed =
     (if i < length userWord
      then truthTable_loop userWord targetWord (i + 1)
             (targetLetterUsed[i := (userWord ! i = targetWord ! i)])
      else targetLetterUsed)"
  by pat_completeness auto
termination
  by (relation "measure (\<lambda>(userWord, targetWord, i, targetLetterUsed). length userWord - i)") auto

declare truthTable_loop.simps [simp del]

text \<open>
  The inner loop over the target: the index of the first letter equal to
  \<open>userWord[i]\<close> and not yet tied, where the loop leaves with \<open>break\<close>.
\<close>

function target_loop :: "string \<Rightarrow> string \<Rightarrow> nat \<Rightarrow> nat \<Rightarrow> bool list \<Rightarrow> nat option" where
  "target_loop userWord targetWord i j targetLetterUsed =
     (if j < length targetWord then
        if userWord ! i = targetWord ! j \<and> \<not> targetLetterUsed ! j then Some j
        else target_loop userWord targetWord i (j + 1) targetLetterUsed
      else None)"
  by pat_completeness auto
termination
  by (relation "measure (\<lambda>(userWord, targetWord, i, j, targetLetterUsed). length targetWord - j)")
    auto

declare target_loop.simps [simp del]

definition setColor :: "int \<Rightarrow> tty_output \<Rightarrow> int \<Rightarrow> tty_output list \<Rightarrow> int \<times> tty_output list" where
  "setColor color escape currentColor out =
     (if currentColor \<noteq> color then (color, out @ [escape]) else (currentColor, out))"

function userWord_loop ::
  "string \<Rightarrow> string \<Rightarrow> nat \<Rightarrow> int \<Rightarrow> bool list \<Rightarrow> tty_output list \<Rightarrow> int \<times> tty_output list"
where
  "userWord_loop userWord targetWord i currentColor targetLetterUsed out =
     (if i < length userWord then
        if userWord ! i = targetWord ! i then
          let (currentColor, out) = setColor green ColorGreen currentColor out
          in userWord_loop userWord targetWord (i + 1) currentColor targetLetterUsed
               (out @ [Putc (userWord ! i)])
        else
          (case target_loop userWord targetWord i 0 targetLetterUsed of
             Some j \<Rightarrow>
               let targetLetterUsed = targetLetterUsed[j := True];
                   (currentColor, out) = setColor yellow ColorYellow currentColor out
               in userWord_loop userWord targetWord (i + 1) currentColor targetLetterUsed
                    (out @ [Putc (userWord ! i)])
           | None \<Rightarrow>
               let (currentColor, out) = setColor defaultColor ColorDefault currentColor out
               in userWord_loop userWord targetWord (i + 1) currentColor targetLetterUsed
                    (out @ [Putc (userWord ! i)]))
      else (currentColor, out))"
  by pat_completeness auto
termination
  by (relation "measure (\<lambda>(userWord, targetWord, i, currentColor, targetLetterUsed, out).
        length userWord - i)") auto

declare userWord_loop.simps [simp del]

definition processWord :: "string \<Rightarrow> string \<Rightarrow> bool list \<Rightarrow> tty_output list" where
  "processWord userWord targetWord targetLetterUsed =
     (let targetLetterUsed = truthTable_loop userWord targetWord 0 targetLetterUsed;
          (currentColor, out) =
            userWord_loop userWord targetWord 0 defaultColor targetLetterUsed [];
          (currentColor, out) = setColor defaultColor ColorDefault currentColor out
      in out @ [Putc (CHR 0x0A)])"

text \<open>
  Reading the terminal: every character written, with the colour that is in
  force when it is written. The second argument is the colour in force before
  the output; \<open>processWord\<close> starts from the default colour, as its
  \<open>currentColor\<close> does.
\<close>

fun printed :: "tty_output list \<Rightarrow> int \<Rightarrow> (char \<times> int) list" where
  "printed [] color = []"
| "printed (ColorGreen # out) color = printed out green"
| "printed (ColorYellow # out) color = printed out yellow"
| "printed (ColorDefault # out) color = printed out defaultColor"
| "printed (Putc c # out) color = (c, color) # printed out color"

text \<open>The colour that is in force after some output.\<close>

fun in_force :: "tty_output list \<Rightarrow> int \<Rightarrow> int" where
  "in_force [] color = color"
| "in_force (ColorGreen # out) color = in_force out green"
| "in_force (ColorYellow # out) color = in_force out yellow"
| "in_force (ColorDefault # out) color = in_force out defaultColor"
| "in_force (Putc c # out) color = in_force out color"

subsection \<open>The two-pass classification of the specification\<close>

datatype PerLetterResult = Correct | Present | Absent

text \<open>
  First pass: the Letter-Tie Table has position \<open>i\<close> claimed exactly where
  \<open>guess[i] = target[i]\<close>.
\<close>

definition first_pass :: "string \<Rightarrow> string \<Rightarrow> bool list" where
  "first_pass guess target = map (\<lambda>i. guess ! i = target ! i) [0..<length target]"

text \<open>The lowest target position holding the letter and not yet claimed.\<close>

definition lowest_unclaimed :: "char \<Rightarrow> string \<Rightarrow> bool list \<Rightarrow> nat option" where
  "lowest_unclaimed c target claimed =
     (case filter (\<lambda>j. c = target ! j \<and> \<not> claimed ! j) [0..<length target] of
        [] \<Rightarrow> None
      | j # _ \<Rightarrow> Some j)"

text \<open>
  Second pass over the guess positions in increasing order: a position resolved
  as Correct stays so; another one is Present when it can claim a target
  position, and Absent otherwise.
\<close>

fun second_pass :: "string \<Rightarrow> string \<Rightarrow> nat list \<Rightarrow> bool list \<Rightarrow> PerLetterResult list" where
  "second_pass guess target [] claimed = []"
| "second_pass guess target (i # positions) claimed =
     (if guess ! i = target ! i then Correct # second_pass guess target positions claimed
      else
        (case lowest_unclaimed (guess ! i) target claimed of
           Some j \<Rightarrow> Present # second_pass guess target positions (claimed[j := True])
         | None \<Rightarrow> Absent # second_pass guess target positions claimed))"

definition classify :: "string \<Rightarrow> string \<Rightarrow> PerLetterResult list" where
  "classify guess target =
     second_pass guess target [0..<length guess] (first_pass guess target)"

text \<open>The colour in which the caller renders a classification.\<close>

fun color_of :: "PerLetterResult \<Rightarrow> int" where
  "color_of Correct = green"
| "color_of Present = yellow"
| "color_of Absent = defaultColor"

subsection \<open>wordle.c: getSeed\<close>

text \<open>
  The seed argument is parsed digit by digit into a \<open>long\<close>. The digit is
  held in a \<open>char\<close>; the product and the sum are what they become in 64
  bits. The sign is tested after the multiplication and before the digit is
  added.
\<close>

definition NUMBER_0 :: int where
  "NUMBER_0 = 48"

definition NUMBER_9 :: int where
  "NUMBER_9 = 57"

definition BASE_10 :: int where
  "BASE_10 = 10"

fun getSeed_loop :: "string \<Rightarrow> int \<Rightarrow> error + int" where
  "getSeed_loop [] seed = Inr seed"
| "getSeed_loop (c # str) seed =
     (let digit = to_char (int (of_char c))
      in if digit < NUMBER_0 \<or> digit > NUMBER_9 then Inl UsageError
         else
           let seed = s64 (seed * BASE_10)
           in if seed < 0 then Inl UsageError
              else getSeed_loop str (s64 (seed + (digit - NUMBER_0))))"

definition getSeed :: "string \<Rightarrow> error + int" where
  "getSeed str = getSeed_loop str 0"

subsection \<open>wordle.c: the start of main\<close>

text \<open>
  \<open>main\<close> up to the game loop, in the order of the code: \<open>readWords\<close>,
  then \<open>chooseWord\<close> with the seed, then \<open>sort\<close>. A fatal exit is
  \<open>Inl\<close>; \<open>None\<close> is a run without a defined outcome.
\<close>

definition main_startup :: "string option \<Rightarrow> int \<Rightarrow> (error + (string \<times> string list)) option" where
  "main_startup file seed =
     (case readWords file of
        Inl e \<Rightarrow> Some (Inl e)
      | Inr wordList \<Rightarrow>
          (case chooseWord seed wordList of
             None \<Rightarrow> None
           | Some targetWord \<Rightarrow>
               (case sort_words wordList of
                  None \<Rightarrow> None
                | Some (Inl e) \<Rightarrow> Some (Inl e)
                | Some (Inr sortedList) \<Rightarrow> Some (Inr (targetWord, sortedList)))))"

text \<open>
  The same start of \<open>main\<close> when the seed is given on the command line:
  \<open>readWords\<close> comes first, then \<open>getSeed\<close> parses the argument, and
  the run goes on with the parsed seed.
\<close>

definition main_seed_argument ::
  "string option \<Rightarrow> string \<Rightarrow> (error + (string \<times> string list)) option"
where
  "main_seed_argument file str =
     (case readWords file of
        Inl e \<Rightarrow> Some (Inl e)
      | Inr wordList \<Rightarrow>
          (case getSeed str of
             Inl e \<Rightarrow> Some (Inl e)
           | Inr seed \<Rightarrow> main_startup file seed))"

section \<open>The index of chooseWord\<close>

text \<open>
  For a lexicon of at most \<open>WORD_LIMIT\<close> words the product stays far
  below \<open>2 ^ 63\<close>: the 64-bit evaluation is the exact one.
\<close>

lemma product_in_range:
  assumes "0 \<le> seed" and "1 \<le> n" and "n \<le> WORD_LIMIT"
  shows "0 \<le> (seed smod n) * MULTIPLIER" and "(seed smod n) * MULTIPLIER < 2 ^ 63"
proof -
  have m: "seed smod n = seed mod n"
    using assms by (simp add: smod_mod_positive)
  have lo: "0 \<le> seed mod n" and hi: "seed mod n < n"
    using assms by simp_all
  show "0 \<le> (seed smod n) * MULTIPLIER"
    using lo by (simp add: m MULTIPLIER_def)
  have "(seed mod n) * MULTIPLIER \<le> 99999 * MULTIPLIER"
    using hi assms(3) by (intro mult_right_mono) (simp_all add: WORD_LIMIT_def MULTIPLIER_def)
  also have "\<dots> < 2 ^ 63"
    by (simp add: MULTIPLIER_def)
  finally show "(seed smod n) * MULTIPLIER < 2 ^ 63"
    by (simp add: m)
qed

lemma s64_id: "0 \<le> x \<Longrightarrow> x < 2 ^ 63 \<Longrightarrow> s64 x = x"
  by (simp add: s64_def)

lemma randomIndex_exact:
  assumes "0 \<le> seed" and "1 \<le> n" and "n \<le> WORD_LIMIT"
  shows "randomIndex seed n = (seed mod n) * MULTIPLIER mod n"
proof -
  have m: "seed smod n = seed mod n"
    using assms by (simp add: smod_mod_positive)
  have "s64 ((seed smod n) * MULTIPLIER) = (seed smod n) * MULTIPLIER"
    using product_in_range [OF assms] by (rule s64_id)
  moreover have "0 \<le> (seed mod n) * MULTIPLIER"
    using product_in_range(1) [OF assms] by (simp add: m)
  ultimately show ?thesis
    using assms by (simp add: randomIndex_def m smod_mod_positive)
qed

text \<open>
  C4. For a lexicon of \<open>n\<close> words of length \<open>WORD_LEN\<close>, with
  \<open>1 \<le> n \<le> 100000\<close>, and a non-negative seed, \<open>chooseWord\<close> copies
  out the word at index \<open>(seed mod n) * 4611686018453 mod n\<close>; the 64-bit
  computation gives this very index since the product stays inside the signed
  64-bit range; the index lies in \<open>[0, n)\<close>; seed 0 selects index 0; a lexicon
  of one word gives index 0 for every seed. The result is a function of the seed
  and the lexicon alone.
\<close>

theorem chooseWord_index:
  assumes "wordList \<noteq> []" and "int (length wordList) \<le> WORD_LIMIT" and "0 \<le> seed"
    and "\<forall>w \<in> set wordList. length w = WORD_LEN"
  shows "chooseWord seed wordList =
           Some (wordList ! nat ((seed mod int (length wordList)) * 4611686018453
                                  mod int (length wordList)))
       \<and> randomIndex seed (int (length wordList)) =
           (seed mod int (length wordList)) * 4611686018453 mod int (length wordList)
       \<and> 0 \<le> randomIndex seed (int (length wordList))
       \<and> randomIndex seed (int (length wordList)) < int (length wordList)
       \<and> - (2 ^ 63) \<le> (seed smod int (length wordList)) * MULTIPLIER
       \<and> (seed smod int (length wordList)) * MULTIPLIER < 2 ^ 63
       \<and> chooseWord 0 wordList = Some (wordList ! 0)
       \<and> randomIndex seed 1 = 0
       \<and> chooseWord seed [hd wordList] = Some (hd wordList)"
proof -
  let ?n = "int (length wordList)"
  have n: "1 \<le> ?n" "?n \<le> WORD_LIMIT"
    using assms by (simp_all add: Suc_le_eq)
  have idx: "randomIndex seed ?n = (seed mod ?n) * MULTIPLIER mod ?n"
    using assms(3) n by (rule randomIndex_exact)
  have pos: "0 < ?n"
    using n by linarith
  have lo: "0 \<le> randomIndex seed ?n" and hi: "randomIndex seed ?n < ?n"
    unfolding idx using pos by (rule pos_mod_sign, rule pos_mod_bound)
  have len: "take WORD_LEN (wordList ! nat (randomIndex seed ?n)) = wordList ! nat (randomIndex seed ?n)"
    using assms(4) hi lo by simp
  have c: "chooseWord seed wordList = Some (wordList ! nat (randomIndex seed ?n))"
    using assms(1) lo hi len by (simp add: chooseWord_def Let_def)
  have z: "randomIndex 0 ?n = 0"
    by (simp add: randomIndex_def s64_def)
  have c0: "chooseWord 0 wordList = Some (wordList ! 0)"
    using assms(1,4) by (simp add: chooseWord_def Let_def z)
  have one: "randomIndex seed 1 = 0"
    by (simp add: randomIndex_def signed_modulo_int_def s64_def)
  have "hd wordList \<in> set wordList"
    using assms(1) by simp
  then have "length (hd wordList) = WORD_LEN"
    using assms(4) by blast
  then have c1: "chooseWord seed [hd wordList] = Some (hd wordList)"
    by (simp add: chooseWord_def Let_def one)
  from c idx lo hi product_in_range [OF assms(3) n] c0 one c1 show ?thesis
    by (simp add: MULTIPLIER_def)
qed

theorem chooseWord_index_witness:
  "[''apple'', ''baker'', ''candy''] \<noteq> []
   \<and> int (length [''apple'', ''baker'', ''candy'']) \<le> WORD_LIMIT
   \<and> (0::int) \<le> 7
   \<and> list_all (\<lambda>w. length w = WORD_LEN) [''apple'', ''baker'', ''candy'']
   \<and> chooseWord 7 [''apple'', ''baker'', ''candy''] = Some ''candy''
   \<and> randomIndex 7 3 = 2"
  using chooseWord_index [of "[''apple'', ''baker'', ''candy'']" 7]
  by (simp add: WORD_LIMIT_def WORD_LEN_def)

section \<open>The order of strcmp\<close>

lemma strcmp_eq_0_iff: "strcmp a b = 0 \<longleftrightarrow> a = b"
  by (induction a b rule: strcmp.induct) auto

lemma strcmp_pos_iff: "strcmp a b > 0 \<longleftrightarrow> strcmp b a < 0"
  by (induction a b rule: strcmp.induct) auto

lemma strcmp_trans: "strcmp a b < 0 \<Longrightarrow> strcmp b c < 0 \<Longrightarrow> strcmp a c < 0"
proof (induction a b arbitrary: c rule: strcmp.induct)
  case 1
  then show ?case by simp
next
  case (2 y ys)
  then show ?case by (cases c) (auto split: if_splits)
next
  case (3 x xs)
  then show ?case by simp
next
  case (4 x xs y ys)
  then show ?case by (cases c) (auto split: if_splits)
qed

lemma strcmp_irrefl: "\<not> strcmp a a < 0"
  by (simp add: strcmp_eq_0_iff [THEN iffD2])

lemma strcmp_total: "strcmp a b < 0 \<or> a = b \<or> strcmp b a < 0"
  using strcmp_pos_iff [of a b] strcmp_eq_0_iff [of a b] by linarith

lemma ascending_nth:
  "ascending wordList \<Longrightarrow> i < j \<Longrightarrow> j < length wordList \<Longrightarrow>
     strcmp (wordList ! i) (wordList ! j) < 0"
  unfolding ascending_def by (rule sorted_wrt_nth_less)

lemma ascending_iff_adjacent:
  "ascending wordList \<longleftrightarrow>
     (\<forall>i. Suc i < length wordList \<longrightarrow> strcmp (wordList ! i) (wordList ! Suc i) < 0)"
  unfolding ascending_def
  by (rule sorted_wrt_iff_nth_Suc_transp) (auto intro: transpI strcmp_trans)

lemma ascending_distinct: "ascending wordList \<Longrightarrow> distinct wordList"
  unfolding ascending_def
  by (induction wordList) (auto simp: strcmp_irrefl)

section \<open>Binary search\<close>

lemma binarySearch_range:
  "ascending wordList \<Longrightarrow> 0 \<le> low \<Longrightarrow> high < int (length wordList) \<Longrightarrow>
     binarySearch wordList word low high \<longleftrightarrow>
       (\<exists>k. low \<le> k \<and> k \<le> high \<and> wordList ! nat k = word)"
proof (induction wordList word low high rule: binarySearch.induct)
  case (1 wordList word low high)
  note asc = "1.prems"(1)
  show ?case
  proof (cases "low > high")
    case True
    then show ?thesis
      by (subst binarySearch.simps) auto
  next
    case False
    define mid where "mid = (low + high) sdiv 2"
    have mid: "low \<le> mid" "mid \<le> high"
      using False "1.prems" by (auto simp: mid_def signed_divide_int_def sgn_if)
    have midn: "0 \<le> mid" "nat mid < length wordList"
      using mid "1.prems" by auto
    consider (eq) "strcmp (wordList ! nat mid) word = 0"
      | (gt) "strcmp (wordList ! nat mid) word > 0"
      | (lt) "strcmp (wordList ! nat mid) word < 0"
      by linarith
    then show ?thesis
    proof cases
      case eq
      then have "wordList ! nat mid = word"
        by (simp add: strcmp_eq_0_iff)
      with mid eq False show ?thesis
        by (subst binarySearch.simps) (auto simp: mid_def [symmetric] Let_def)
    next
      case gt
      have ih: "binarySearch wordList word low (mid - 1) \<longleftrightarrow>
          (\<exists>k. low \<le> k \<and> k \<le> mid - 1 \<and> wordList ! nat k = word)"
        using "1.IH"(1) [OF False mid_def refl _ _ asc] gt "1.prems" mid
        by (simp add: mid_def)
      have no: "wordList ! nat k \<noteq> word" if "mid \<le> k" "k \<le> high" for k
      proof
        assume e: "wordList ! nat k = word"
        show False
        proof (cases "k = mid")
          case True
          with e gt show False by (simp add: strcmp_eq_0_iff [THEN iffD2])
        next
          case False
          with that midn "1.prems" have "nat mid < nat k" "nat k < length wordList"
            by auto
          then have "strcmp (wordList ! nat mid) (wordList ! nat k) < 0"
            by (rule ascending_nth [OF asc])
          with e gt show False by simp
        qed
      qed
      have "binarySearch wordList word low high = binarySearch wordList word low (mid - 1)"
        using False gt by (subst binarySearch.simps) (simp add: mid_def [symmetric] Let_def)
      also have "\<dots> \<longleftrightarrow> (\<exists>k. low \<le> k \<and> k \<le> high \<and> wordList ! nat k = word)"
      proof -
        have "k \<le> mid - 1" if "low \<le> k" "k \<le> high" "wordList ! nat k = word" for k
          using no [of k] that by force
        moreover have "k \<le> high" if "k \<le> mid - 1" for k
          using that mid by simp
        ultimately show ?thesis
          unfolding ih by blast
      qed
      finally show ?thesis .
    next
      case lt
      have ih: "binarySearch wordList word (mid + 1) high \<longleftrightarrow>
          (\<exists>k. mid + 1 \<le> k \<and> k \<le> high \<and> wordList ! nat k = word)"
        using "1.IH"(2) [OF False mid_def refl _ _ asc] lt "1.prems" mid
        by (simp add: mid_def)
      have no: "wordList ! nat k \<noteq> word" if "low \<le> k" "k \<le> mid" for k
      proof
        assume e: "wordList ! nat k = word"
        show False
        proof (cases "k = mid")
          case True
          with e lt show False by (simp add: strcmp_eq_0_iff [THEN iffD2])
        next
          case False
          with that midn "1.prems" have "nat k < nat mid" "nat mid < length wordList"
            by auto
          then have "strcmp (wordList ! nat k) (wordList ! nat mid) < 0"
            by (rule ascending_nth [OF asc])
          with e have "strcmp word (wordList ! nat mid) < 0" by simp
          with lt strcmp_pos_iff [of "wordList ! nat mid" word] show False by simp
        qed
      qed
      have "binarySearch wordList word low high = binarySearch wordList word (mid + 1) high"
        using False lt by (subst binarySearch.simps) (simp add: mid_def [symmetric] Let_def)
      also have "\<dots> \<longleftrightarrow> (\<exists>k. low \<le> k \<and> k \<le> high \<and> wordList ! nat k = word)"
      proof -
        have "mid + 1 \<le> k" if "low \<le> k" "k \<le> high" "wordList ! nat k = word" for k
          using no [of k] that by force
        moreover have "low \<le> k" if "mid + 1 \<le> k" for k
          using that mid by simp
        ultimately show ?thesis
          unfolding ih by blast
      qed
      finally show ?thesis .
    qed
  qed
qed

text \<open>
  C6. On a word list in strictly ascending order, \<open>inList\<close> answers true for
  a word exactly when the word occurs in the list; the witness looks at the
  first word, the last word, and an absent word that lies between two present
  ones.
\<close>

theorem inList_iff_member:
  "ascending wordList \<Longrightarrow> inList wordList word \<longleftrightarrow> word \<in> set wordList"
proof -
  assume asc: "ascending wordList"
  have "inList wordList word \<longleftrightarrow>
      (\<exists>k. 0 \<le> k \<and> k \<le> int (length wordList) - 1 \<and> wordList ! nat k = word)"
    unfolding inList_def using asc by (rule binarySearch_range) simp_all
  also have "\<dots> \<longleftrightarrow> (\<exists>i < length wordList. wordList ! i = word)"
  proof
    assume "\<exists>k. 0 \<le> k \<and> k \<le> int (length wordList) - 1 \<and> wordList ! nat k = word"
    then obtain k where "0 \<le> k" "k \<le> int (length wordList) - 1" "wordList ! nat k = word"
      by blast
    then have "nat k < length wordList \<and> wordList ! nat k = word"
      by auto
    then show "\<exists>i < length wordList. wordList ! i = word"
      by blast
  next
    assume "\<exists>i < length wordList. wordList ! i = word"
    then obtain i where "i < length wordList" "wordList ! i = word"
      by blast
    then have "0 \<le> int i \<and> int i \<le> int (length wordList) - 1 \<and> wordList ! nat (int i) = word"
      by auto
    then show "\<exists>k. 0 \<le> k \<and> k \<le> int (length wordList) - 1 \<and> wordList ! nat k = word"
      by blast
  qed
  also have "\<dots> \<longleftrightarrow> word \<in> set wordList"
    by (auto simp: in_set_conv_nth)
  finally show ?thesis .
qed

theorem inList_iff_member_witness:
  "ascending [''apple'', ''baker'', ''candy'']
   \<and> inList [''apple'', ''baker'', ''candy''] ''apple''
   \<and> inList [''apple'', ''baker'', ''candy''] ''candy''
   \<and> \<not> inList [''apple'', ''baker'', ''candy''] ''bacon''"
proof -
  have asc: "ascending [''apple'', ''baker'', ''candy'']"
    by (simp add: ascending_def)
  show ?thesis
    using asc inList_iff_member [OF asc, of "''apple''"] inList_iff_member [OF asc, of "''candy''"]
      inList_iff_member [OF asc, of "''bacon''"]
    by simp
qed

section \<open>Merging\<close>

lemma strcmp_le_trans: "strcmp a b \<le> 0 \<Longrightarrow> strcmp b c \<le> 0 \<Longrightarrow> strcmp a c \<le> 0"
  using strcmp_trans [of a b c] strcmp_eq_0_iff [of a b] strcmp_eq_0_iff [of b c]
  by (cases "strcmp a b = 0"; cases "strcmp b c = 0") auto

lemma strcmp_not_less: "\<not> strcmp a b < 0 \<Longrightarrow> strcmp b a \<le> 0"
  using strcmp_pos_iff [of a b] strcmp_eq_0_iff [of a b] strcmp_eq_0_iff [of b a]
  by (cases "strcmp a b = 0") auto

lemma strcmp_antisym: "strcmp a b \<le> 0 \<Longrightarrow> strcmp b a \<le> 0 \<Longrightarrow> a = b"
  using strcmp_pos_iff [of b a] strcmp_eq_0_iff [of a b] by force

lemma merge_lists_Nil [simp]: "merge_lists [] ys = ys"
  by (cases ys) simp_all

lemma mset_merge_lists: "mset (merge_lists xs ys) = mset xs + mset ys"
  by (induction xs ys rule: merge_lists.induct) auto

lemma set_merge_lists: "set (merge_lists xs ys) = set xs \<union> set ys"
  by (induction xs ys rule: merge_lists.induct) auto

lemma sorted_merge_lists:
  "sorted_wrt (\<lambda>a b. strcmp a b \<le> 0) xs \<Longrightarrow> sorted_wrt (\<lambda>a b. strcmp a b \<le> 0) ys \<Longrightarrow>
     sorted_wrt (\<lambda>a b. strcmp a b \<le> 0) (merge_lists xs ys)"
proof (induction xs ys rule: merge_lists.induct)
  case (1 xs)
  then show ?case by simp
next
  case (2 ys)
  then show ?case by simp
next
  case (3 x xs y ys)
  show ?case
  proof (cases "strcmp x y < 0")
    case True
    have "strcmp x z \<le> 0" if "z \<in> set (y # ys)" for z
      using that True "3.prems"(2) strcmp_le_trans [of x y z] by auto
    with True 3 show ?thesis
      by (auto simp: set_merge_lists)
  next
    case False
    then have yx: "strcmp y x \<le> 0"
      by (rule strcmp_not_less)
    have "strcmp y z \<le> 0" if "z \<in> set (x # xs)" for z
      using that yx "3.prems"(1) strcmp_le_trans [of y x z] by auto
    with False 3 show ?thesis
      by (auto simp: set_merge_lists)
  qed
qed

lemma merge_loop_eq:
  "leftLength = int (length left) \<Longrightarrow> rightLength = int (length right) \<Longrightarrow>
   n = leftLength + rightLength \<Longrightarrow> int (length list) = n \<Longrightarrow>
   0 \<le> leftIndex \<Longrightarrow> leftIndex \<le> leftLength \<Longrightarrow>
   0 \<le> rightIndex \<Longrightarrow> rightIndex \<le> rightLength \<Longrightarrow>
   merge_loop left leftLength right rightLength n leftIndex rightIndex list =
     take (nat (leftIndex + rightIndex)) list @
       merge_lists (drop (nat leftIndex) left) (drop (nat rightIndex) right)"
proof (induction left leftLength right rightLength n leftIndex rightIndex list
    rule: merge_loop.induct)
  case (1 left leftLength right rightLength n leftIndex rightIndex list)
  let ?k = "nat (leftIndex + rightIndex)"
  show ?case
  proof (cases "leftIndex + rightIndex < n")
    case False
    with "1.prems" have "leftIndex = leftLength" "rightIndex = rightLength"
      by auto
    with False "1.prems" show ?thesis
      by (subst merge_loop.simps) simp
  next
    case True
    then have k: "?k < length list"
      using "1.prems" by auto
    show ?thesis
    proof (cases "rightIndex = rightLength \<or>
           (leftIndex < leftLength \<and>
            strcmp (left ! nat leftIndex) (right ! nat rightIndex) < 0)")
      case takeLeft: True
      then have li: "nat leftIndex < length left"
        using True "1.prems" by auto
      have dl: "drop (nat leftIndex) left = left ! nat leftIndex # drop (nat (leftIndex + 1)) left"
        using li "1.prems"(5) by (simp add: Cons_nth_drop_Suc nat_add_distrib)
      have tk: "take (nat (leftIndex + 1 + rightIndex)) (list[?k := left ! nat leftIndex])
          = take ?k list @ [left ! nat leftIndex]"
      proof -
        have "nat (leftIndex + 1 + rightIndex) = Suc ?k"
          using "1.prems" by auto
        then show ?thesis
          using k by (simp add: take_Suc_conv_app_nth)
      qed
      have ml: "merge_lists (left ! nat leftIndex # drop (nat (leftIndex + 1)) left)
            (drop (nat rightIndex) right)
          = left ! nat leftIndex #
              merge_lists (drop (nat (leftIndex + 1)) left) (drop (nat rightIndex) right)"
      proof (cases "rightIndex = rightLength")
        case True
        with "1.prems" show ?thesis by simp
      next
        case False
        with "1.prems" have ri: "nat rightIndex < length right"
          by auto
        from False takeLeft have "strcmp (left ! nat leftIndex) (right ! nat rightIndex) < 0"
          by simp
        then show ?thesis
          using ri by (simp add: Cons_nth_drop_Suc [symmetric])
      qed
      have "merge_loop left leftLength right rightLength n leftIndex rightIndex list
          = merge_loop left leftLength right rightLength n (leftIndex + 1) rightIndex
              (list[?k := left ! nat leftIndex])"
        by (subst merge_loop.simps) (simp only: True takeLeft if_True if_False)
      also have "\<dots> = take (nat (leftIndex + 1 + rightIndex)) (list[?k := left ! nat leftIndex]) @
          merge_lists (drop (nat (leftIndex + 1)) left) (drop (nat rightIndex) right)"
        using "1.prems" li by (intro "1.IH"(1) [OF True takeLeft]) auto
      finally show ?thesis
        by (simp add: tk dl ml)
    next
      case takeRight: False
      then have "rightIndex \<noteq> rightLength"
        by simp
      then have ri: "nat rightIndex < length right"
        using "1.prems" by auto
      have dr: "drop (nat rightIndex) right
          = right ! nat rightIndex # drop (nat (rightIndex + 1)) right"
        using ri "1.prems"(7) by (simp add: Cons_nth_drop_Suc nat_add_distrib)
      have tk: "take (nat (leftIndex + (rightIndex + 1))) (list[?k := right ! nat rightIndex])
          = take ?k list @ [right ! nat rightIndex]"
      proof -
        have "nat (leftIndex + (rightIndex + 1)) = Suc ?k"
          using "1.prems" by auto
        then show ?thesis
          using k by (simp add: take_Suc_conv_app_nth)
      qed
      have ml: "merge_lists (drop (nat leftIndex) left)
            (right ! nat rightIndex # drop (nat (rightIndex + 1)) right)
          = right ! nat rightIndex #
              merge_lists (drop (nat leftIndex) left) (drop (nat (rightIndex + 1)) right)"
      proof (cases "leftIndex < leftLength")
        case True
        with "1.prems" have li: "nat leftIndex < length left"
          by auto
        from True takeRight have "\<not> strcmp (left ! nat leftIndex) (right ! nat rightIndex) < 0"
          by simp
        then show ?thesis
          using li by (simp add: Cons_nth_drop_Suc [symmetric])
      next
        case False
        with "1.prems" show ?thesis by simp
      qed
      have "merge_loop left leftLength right rightLength n leftIndex rightIndex list
          = merge_loop left leftLength right rightLength n leftIndex (rightIndex + 1)
              (list[?k := right ! nat rightIndex])"
        by (subst merge_loop.simps) (simp only: True takeRight if_True if_False)
      also have "\<dots> = take (nat (leftIndex + (rightIndex + 1))) (list[?k := right ! nat rightIndex]) @
          merge_lists (drop (nat leftIndex) left) (drop (nat (rightIndex + 1)) right)"
        using "1.prems" ri by (intro "1.IH"(2) [OF True takeRight]) auto
      finally show ?thesis
        by (simp add: tk dr ml)
    qed
  qed
qed

lemma merge_eq:
  "int (length list) = int (length left) + int (length right) \<Longrightarrow>
   merge left (int (length left)) right (int (length right)) list (int (length list))
     = merge_lists left right"
  unfolding merge_def by (subst merge_loop_eq) simp_all

section \<open>Merge sort\<close>

lemma copyArray_left:
  "0 \<le> mid \<Longrightarrow> mid \<le> int (length list) \<Longrightarrow> copyArray list 0 (mid - 1) = take (nat mid) list"
  by (rule nth_equalityI) (simp_all add: copyArray_def)

lemma copyArray_right:
  "0 \<le> mid \<Longrightarrow> mid \<le> n \<Longrightarrow> n = int (length list) \<Longrightarrow>
     copyArray list mid (n - 1) = drop (nat mid) list"
  by (rule nth_equalityI) (simp_all add: copyArray_def nat_add_distrib add.commute)

lemma halves:
  assumes "2 \<le> (n::int)"
  shows "1 \<le> n sdiv 2" and "n sdiv 2 < n"
    and "1 \<le> (if n smod 2 = 0 then n sdiv 2 else n sdiv 2 + 1)"
    and "(if n smod 2 = 0 then n sdiv 2 else n sdiv 2 + 1) < n"
    and "n sdiv 2 + (if n smod 2 = 0 then n sdiv 2 else n sdiv 2 + 1) = n"
proof -
  have d: "n sdiv 2 = n div 2" and m: "n smod 2 = n mod 2"
    using assms by (simp_all add: signed_divide_int_def signed_modulo_int_def sgn_if)
  show "1 \<le> n sdiv 2" and "n sdiv 2 < n"
    and "1 \<le> (if n smod 2 = 0 then n sdiv 2 else n sdiv 2 + 1)"
    and "(if n smod 2 = 0 then n sdiv 2 else n sdiv 2 + 1) < n"
    and "n sdiv 2 + (if n smod 2 = 0 then n sdiv 2 else n sdiv 2 + 1) = n"
    unfolding d m using assms by presburger+
qed

lemma mergeSort_step:
  assumes "2 \<le> n" and "n = int (length list)"
  shows "mergeSort list n =
     Option.bind (mergeSort (take (nat (n sdiv 2)) list) (int (length (take (nat (n sdiv 2)) list))))
       (\<lambda>left.
     Option.bind (mergeSort (drop (nat (n sdiv 2)) list) (int (length (drop (nat (n sdiv 2)) list))))
       (\<lambda>right.
     Some (merge left (n sdiv 2) right (n - n sdiv 2) list n)))"
proof -
  have r: "(if n smod 2 = 0 then n sdiv 2 else n sdiv 2 + 1) = n - n sdiv 2"
    using halves(5) [OF assms(1)] by linarith
  have l: "copyArray list 0 (n sdiv 2 - 1) = take (nat (n sdiv 2)) list"
    using halves(1,2) [OF assms(1)] assms(2) by (intro copyArray_left) auto
  have d: "copyArray list (n sdiv 2) (n - 1) = drop (nat (n sdiv 2)) list"
    using halves(1,2) [OF assms(1)] assms(2) by (intro copyArray_right) auto
  have ll: "int (length (take (nat (n sdiv 2)) list)) = n sdiv 2"
    using halves(1,2) [OF assms(1)] assms(2) by auto
  have lr: "int (length (drop (nat (n sdiv 2)) list)) = n - n sdiv 2"
    using halves(1,2) [OF assms(1)] assms(2) by auto
  have "n \<noteq> 1"
    using assms(1) by simp
  then show ?thesis
    by (subst mergeSort.simps) (simp only: Let_def r l d ll lr if_True not_False_eq_True)
qed

lemma mergeSort_sorts:
  "list \<noteq> [] \<Longrightarrow>
     \<exists>r. mergeSort list (int (length list)) = Some r \<and> mset r = mset list \<and>
         sorted_wrt (\<lambda>a b. strcmp a b \<le> 0) r"
proof (induction "length list" arbitrary: list rule: less_induct)
  case less
  let ?n = "int (length list)"
  show ?case
  proof (cases "length list = 1")
    case True
    then have "mergeSort list ?n = Some list"
      by (subst mergeSort.simps) simp
    moreover from True have "sorted_wrt (\<lambda>a b. strcmp a b \<le> 0) list"
      by (cases list) auto
    ultimately show ?thesis by simp
  next
    case False
    have "length list \<noteq> 0"
      using less.prems by simp
    with False have n: "2 \<le> ?n"
      by linarith
    let ?l = "take (nat (?n sdiv 2)) list" and ?r = "drop (nat (?n sdiv 2)) list"
    have len: "length ?l = nat (?n sdiv 2)" "length ?r = nat (?n - ?n sdiv 2)"
      using halves(1,2) [OF n] by auto
    have "length ?l < length list" "?l \<noteq> []"
      using halves(1,2) [OF n] by auto
    from less.hyps [OF this] obtain left where
      left: "mergeSort ?l (int (length ?l)) = Some left" "mset left = mset ?l"
        "sorted_wrt (\<lambda>a b. strcmp a b \<le> 0) left"
      by blast
    have "length ?r < length list" "?r \<noteq> []"
      using halves(1,2) [OF n] by auto
    from less.hyps [OF this] obtain right where
      right: "mergeSort ?r (int (length ?r)) = Some right" "mset right = mset ?r"
        "sorted_wrt (\<lambda>a b. strcmp a b \<le> 0) right"
      by blast
    have ll: "int (length left) = ?n sdiv 2"
      using left(2) [THEN arg_cong, of size] len(1) halves(1) [OF n] by simp
    have lr: "int (length right) = ?n - ?n sdiv 2"
      using right(2) [THEN arg_cong, of size] len(2) halves(2) [OF n] by simp
    have "merge left (?n sdiv 2) right (?n - ?n sdiv 2) list ?n = merge_lists left right"
      using merge_eq [of list left right] ll lr by simp
    then have res: "mergeSort list ?n = Some (merge_lists left right)"
      using mergeSort_step [OF n refl] left(1) right(1) by simp
    have "mset (merge_lists left right) = mset ?l + mset ?r"
      by (simp add: mset_merge_lists left(2) right(2))
    also have "\<dots> = mset list"
      by (simp flip: mset_append)
    finally have "mset (merge_lists left right) = mset list" .
    with res sorted_merge_lists [OF left(3) right(3)] show ?thesis
      by simp
  qed
qed

lemma mergeSort_nonzero:
  assumes "mergeSort list n = Some r"
  shows "n \<noteq> 0"
proof (rule mergeSort.raw_induct [where P = "\<lambda>list n r. n \<noteq> 0", OF _ assms])
  fix f :: "string list \<Rightarrow> int \<Rightarrow> string list option"
    and list' :: "string list" and n' :: int and r' :: "string list"
  assume IH: "\<And>l m y. f l m = Some y \<Longrightarrow> m \<noteq> 0"
    and step: "(if n' \<noteq> 1
      then let mid = n' sdiv 2; leftLength = mid;
               rightLength = if n' smod 2 = 0 then mid else mid + 1;
               left = copyArray list' 0 (mid - 1);
               right = copyArray list' mid (n' - 1)
           in Option.bind (f left leftLength)
               (\<lambda>left. Option.bind (f right rightLength)
                 (\<lambda>right. Some (merge left leftLength right rightLength list' n')))
      else Some list') = Some r'"
  show "n' \<noteq> 0"
  proof
    assume "n' = 0"
    with step obtain left where "f (copyArray list' 0 (0 sdiv 2 - 1)) 0 = Some left"
      by (auto simp: Let_def split: bind_splits)
    from IH [OF this] show False
      by simp
  qed
qed

lemma mergeSort_empty: "mergeSort [] 0 = None"
  using mergeSort_nonzero [of "[]" 0] by (cases "mergeSort [] 0") auto

lemma mergeSort_zero: "mergeSort list 0 = None"
proof -
  have "copyArray list 0 (0 sdiv 2 - 1) = []"
    by (simp add: copyArray_def)
  then show ?thesis
    by (subst mergeSort.simps) (simp add: mergeSort_empty)
qed

section \<open>sort: the neighbour scan\<close>

lemma duplicate_scan_iff:
  "0 \<le> i \<Longrightarrow>
     duplicate_scan wordList i \<longleftrightarrow>
       (\<exists>k. nat i \<le> k \<and> Suc k < length wordList \<and> wordList ! k = wordList ! Suc k)"
proof (induction wordList i rule: duplicate_scan.induct)
  case (1 wordList i)
  show ?case
  proof (cases "i < int (length wordList) - 1")
    case False
    then have "\<not> duplicate_scan wordList i"
      by (subst duplicate_scan.simps) simp
    moreover have "\<not> (Suc k < length wordList)" if "nat i \<le> k" for k
      using that False "1.prems" by linarith
    ultimately show ?thesis by blast
  next
    case True
    have s: "nat (i + 1) = Suc (nat i)"
      using "1.prems" by simp
    show ?thesis
    proof (cases "strcmp (wordList ! nat i) (wordList ! nat (i + 1)) = 0")
      case eq: True
      then have "wordList ! nat i = wordList ! Suc (nat i)"
        by (simp add: strcmp_eq_0_iff s)
      moreover have "Suc (nat i) < length wordList"
        using True "1.prems" by linarith
      moreover have "duplicate_scan wordList i"
        using True eq by (subst duplicate_scan.simps) simp
      ultimately show ?thesis by blast
    next
      case neq: False
      then have ne: "wordList ! nat i \<noteq> wordList ! Suc (nat i)"
        by (simp add: strcmp_eq_0_iff s)
      have "duplicate_scan wordList i = duplicate_scan wordList (i + 1)"
        using True neq by (subst duplicate_scan.simps) simp
      also have "\<dots> \<longleftrightarrow>
          (\<exists>k. Suc (nat i) \<le> k \<and> Suc k < length wordList \<and> wordList ! k = wordList ! Suc k)"
        using "1.IH" [OF True neq] "1.prems" by (simp add: s)
      also have "\<dots> \<longleftrightarrow>
          (\<exists>k. nat i \<le> k \<and> Suc k < length wordList \<and> wordList ! k = wordList ! Suc k)"
        using ne by (metis Suc_leD Suc_leI le_neq_implies_less)
      finally show ?thesis .
    qed
  qed
qed

lemma sorted_neighbours_iff_distinct:
  assumes "sorted_wrt (\<lambda>a b. strcmp a b \<le> 0) wordList"
  shows "(\<exists>k. Suc k < length wordList \<and> wordList ! k = wordList ! Suc k) \<longleftrightarrow> \<not> distinct wordList"
proof
  assume "\<exists>k. Suc k < length wordList \<and> wordList ! k = wordList ! Suc k"
  then obtain k where "Suc k < length wordList" "wordList ! k = wordList ! Suc k"
    by blast
  then show "\<not> distinct wordList"
    by (auto simp: distinct_conv_nth) (metis Suc_lessD n_not_Suc_n)
next
  assume nd: "\<not> distinct wordList"
  show "\<exists>k. Suc k < length wordList \<and> wordList ! k = wordList ! Suc k"
  proof (rule ccontr)
    assume none: "\<not> (\<exists>k. Suc k < length wordList \<and> wordList ! k = wordList ! Suc k)"
    have "strcmp (wordList ! k) (wordList ! Suc k) < 0" if "Suc k < length wordList" for k
    proof -
      have "strcmp (wordList ! k) (wordList ! Suc k) \<le> 0"
        using sorted_wrt_nth_less [OF assms _ that] by simp
      moreover have "strcmp (wordList ! k) (wordList ! Suc k) \<noteq> 0"
        using none that by (simp add: strcmp_eq_0_iff)
      ultimately show ?thesis by linarith
    qed
    then have "ascending wordList"
      by (simp add: ascending_iff_adjacent)
    then have "distinct wordList"
      by (rule ascending_distinct)
    with nd show False by simp
  qed
qed

lemma sort_eq:
  assumes "wordList \<noteq> []"
  shows "\<exists>r. mergeSort wordList (int (length wordList)) = Some r \<and> mset r = mset wordList
      \<and> sorted_wrt (\<lambda>a b. strcmp a b \<le> 0) r
      \<and> sort_words wordList = Some (if distinct wordList then Inr r else Inl DuplicateWord)
      \<and> (distinct wordList \<longrightarrow> ascending r)"
proof -
  from mergeSort_sorts [OF assms] obtain r where
    r: "mergeSort wordList (int (length wordList)) = Some r" "mset r = mset wordList"
      "sorted_wrt (\<lambda>a b. strcmp a b \<le> 0) r"
    by blast
  have d: "distinct r \<longleftrightarrow> distinct wordList"
    using r(2) by (metis mset_eq_imp_distinct_iff)
  have scan: "duplicate_scan r 0 \<longleftrightarrow> \<not> distinct wordList"
    using duplicate_scan_iff [of 0 r] sorted_neighbours_iff_distinct [OF r(3)] d by simp
  have "ascending r" if "distinct wordList"
  proof -
    have "strcmp (r ! k) (r ! Suc k) < 0" if k: "Suc k < length r" for k
    proof -
      have "strcmp (r ! k) (r ! Suc k) \<le> 0"
        using sorted_wrt_nth_less [OF r(3) _ k] by simp
      moreover have "r ! k \<noteq> r ! Suc k"
        using \<open>distinct wordList\<close> d k by (simp add: nth_eq_iff_index_eq)
      ultimately show ?thesis
        using strcmp_eq_0_iff [of "r ! k" "r ! Suc k"] by linarith
    qed
    then show ?thesis
      by (simp add: ascending_iff_adjacent)
  qed
  with r scan show ?thesis
    by (auto simp: sort_words_def)
qed

text \<open>
  C5. On a word list with at least one word, \<open>sort\<close> ends the program with
  \<open>DuplicateWord\<close> exactly when two of the loaded words are identical. When
  it returns, the list is a permutation of the loaded words in strictly
  ascending order: each word is smaller than its right neighbour. One of the two
  always happens.
\<close>

theorem sort_duplicate_or_ascending:
  assumes "wordList \<noteq> []"
  shows "(sort_words wordList = Some (Inl DuplicateWord) \<longleftrightarrow> \<not> distinct wordList)
       \<and> ((\<exists>s. sort_words wordList = Some (Inr s)) \<longleftrightarrow> distinct wordList)
       \<and> (\<forall>s. sort_words wordList = Some (Inr s) \<longrightarrow>
             mset s = mset wordList \<and> ascending s \<and>
             (\<forall>i. Suc i < length s \<longrightarrow> strcmp (s ! i) (s ! Suc i) < 0))"
proof -
  from sort_eq [OF assms] obtain r where
    r: "mset r = mset wordList"
      "sort_words wordList = Some (if distinct wordList then Inr r else Inl DuplicateWord)"
      "distinct wordList \<longrightarrow> ascending r"
    by blast
  show ?thesis
  proof (cases "distinct wordList")
    case True
    with r have "sort_words wordList = Some (Inr r)" "ascending r"
      by simp_all
    with r(1) True ascending_iff_adjacent [of r] show ?thesis
      by simp
  next
    case False
    with r show ?thesis by simp
  qed
qed

theorem sort_duplicate_or_ascending_witness:
  "[''candy'', ''apple'', ''baker''] \<noteq> []
   \<and> sort_words [''candy'', ''apple'', ''baker''] = Some (Inr [''apple'', ''baker'', ''candy''])
   \<and> mset [''apple'', ''baker'', ''candy''] = mset [''candy'', ''apple'', ''baker'']
   \<and> ascending [''apple'', ''baker'', ''candy'']
   \<and> [''baker'', ''apple'', ''baker''] \<noteq> []
   \<and> sort_words [''baker'', ''apple'', ''baker''] = Some (Inl DuplicateWord)"
proof -
  have s: "sort_words [''candy'', ''apple'', ''baker''] = Some (Inr [''apple'', ''baker'', ''candy''])"
    by (simp add: sort_words_def mergeSort.simps copyArray_def merge_def merge_loop.simps
        duplicate_scan.simps signed_divide_int_def signed_modulo_int_def upto.simps Let_def)
  have ne: "[''candy'', ''apple'', ''baker''] \<noteq> []" "[''baker'', ''apple'', ''baker''] \<noteq> []"
    by simp_all
  from sort_duplicate_or_ascending [OF ne(1)] s sort_duplicate_or_ascending [OF ne(2)]
  show ?thesis
    by simp
qed

section \<open>Reading one line\<close>

lemma to_char_range:
  "0 \<le> v \<Longrightarrow> v < 256 \<Longrightarrow> to_char v = (if v < 128 then v else v - 256)"
proof (cases "v < 128")
  case True
  assume "0 \<le> v"
  with True have "(v + 128) mod 256 = v + 128"
    by (intro mod_pos_pos_trivial) simp_all
  with True show ?thesis
    by (simp add: to_char_def)
next
  case False
  assume "v < 256"
  have "v + 128 = v - 128 + 256"
    by simp
  then have "(v + 128) mod 256 = (v - 128 + 256) mod 256"
    by (rule arg_cong)
  also have "\<dots> = (v - 128) mod 256"
    by (simp only: mod_add_self2)
  also have "\<dots> = v - 128"
    using False \<open>v < 256\<close> by (intro mod_pos_pos_trivial) simp_all
  finally show ?thesis
    using False by (simp add: to_char_def)
qed

lemma byte_range: "0 \<le> int (of_char c)" "int (of_char c) < 256"
  using nat_of_char_less_256 [of c] by simp_all

lemma to_char_byte:
  "to_char (int (of_char c)) =
     (if int (of_char c) < 128 then int (of_char c) else int (of_char c) - 256)"
  using byte_range [of c] by (rule to_char_range)

lemma byte_eq_iff: "c = d \<longleftrightarrow> int (of_char c) = int (of_char d)"
  by simp

lemma to_char_eq_EOF: "to_char (int (of_char c)) = - 1 \<longleftrightarrow> c = CHR 0xFF"
proof -
  have "c = CHR 0xFF \<longleftrightarrow> int (of_char c) = int (of_char (CHR 0xFF))"
    by (rule byte_eq_iff)
  also have "\<dots> \<longleftrightarrow> int (of_char c) = 255"
    by simp
  also have "\<dots> \<longleftrightarrow> to_char (int (of_char c)) = - 1"
    unfolding to_char_byte using byte_range [of c] by presburger
  finally show ?thesis ..
qed

lemma to_char_eq_LINE_FEED: "to_char (int (of_char c)) = 10 \<longleftrightarrow> c = CHR 0x0A"
proof -
  have "c = CHR 0x0A \<longleftrightarrow> int (of_char c) = int (of_char (CHR 0x0A))"
    by (rule byte_eq_iff)
  also have "\<dots> \<longleftrightarrow> int (of_char c) = 10"
    by simp
  also have "\<dots> \<longleftrightarrow> to_char (int (of_char c)) = 10"
    unfolding to_char_byte using byte_range [of c] by presburger
  finally show ?thesis ..
qed

lemma to_char_mod: "to_char v mod 256 = v mod 256"
proof -
  have "((v + 128) mod 256 - 128) mod 256 = (v + 128 - 128) mod 256"
    by (rule mod_diff_left_eq)
  then show ?thesis
    by (simp add: to_char_def)
qed

lemma char_of_to_char: "char_of (to_char (int (of_char c))) = c"
proof -
  have "char_of (to_char (int (of_char c))) = char_of (int (of_char c))"
    by (simp only: char_of_quasi_inj to_char_mod)
  then show ?thesis
    by simp
qed

lemma to_char_letter:
  "0 \<le> v \<Longrightarrow> v < 256 \<Longrightarrow>
     \<not> (to_char v < LOWERCASE_A \<or> to_char v > LOWERCASE_Z) \<longleftrightarrow>
       LOWERCASE_A \<le> v \<and> v \<le> LOWERCASE_Z"
  by (auto simp: to_char_range LOWERCASE_A_def LOWERCASE_Z_def)

lemma to_char_lowercase:
  "\<not> (to_char (int (of_char c)) < LOWERCASE_A \<or> to_char (int (of_char c)) > LOWERCASE_Z)
     \<longleftrightarrow> lowercase c"
  unfolding lowercase_def using byte_range [of c] by (rule to_char_letter)

lemma to_char_numerals: "to_char (- 1) = - 1" "to_char 255 = - 1" "to_char 10 = 10"
  by (simp_all add: to_char_def)

lemma EOF_not_lowercase: "to_char EOF < LOWERCASE_A"
  by (simp add: to_char_def EOF_def LOWERCASE_A_def)

lemma ungetc_to_char: "ungetc (to_char (int (of_char c))) fp = c # fp"
  by (simp add: ungetc_def char_of_to_char)

lemma readLine_loop_word:
  "list_all lowercase w \<Longrightarrow> i + length w = n \<Longrightarrow>
     readLine_loop (w @ rest) str n i = Inr (str @ w, rest)"
proof (induction w arbitrary: str i)
  case Nil
  then show ?case
    by (subst readLine_loop.simps) simp
next
  case (Cons c w)
  from Cons.prems have "i < n" "lowercase c"
    by auto
  then have "readLine_loop ((c # w) @ rest) str n i = readLine_loop (w @ rest) (str @ [c]) n (i + 1)"
    using to_char_lowercase [of c]
    by (subst readLine_loop.simps) (simp add: getc_def char_of_to_char)
  also have "\<dots> = Inr ((str @ [c]) @ w, rest)"
    using Cons.prems by (intro Cons.IH) auto
  finally show ?case by simp
qed

lemma readLine_loop_Inr:
  "readLine_loop fp str n i = Inr (str', fp') \<Longrightarrow> i \<le> n \<Longrightarrow>
     \<exists>w. fp = w @ fp' \<and> str' = str @ w \<and> list_all lowercase w \<and> i + length w = n"
proof (induction fp str n i rule: readLine_loop.induct)
  case (1 fp str n i)
  show ?case
  proof (cases "i < n")
    case False
    with "1.prems" show ?thesis
      by (subst (asm) readLine_loop.simps) simp
  next
    case True
    show ?thesis
    proof (cases fp)
      case Nil
      with True "1.prems"(1) EOF_not_lowercase show ?thesis
        by (subst (asm) readLine_loop.simps) (simp add: getc_def)
    next
      case (Cons c cs)
      have g: "getc fp = (int (of_char c), cs)"
        by (simp add: Cons getc_def)
      have low: "lowercase c"
        using "1.prems"(1) True g to_char_lowercase [of c]
        by (subst (asm) readLine_loop.simps) (auto simp: Let_def split: if_splits)
      then have ok: "\<not> (to_char (int (of_char c)) < LOWERCASE_A \<or>
          LOWERCASE_Z < to_char (int (of_char c)))"
        using to_char_lowercase [of c] by simp
      have "readLine_loop cs (str @ [char_of (to_char (int (of_char c)))]) n (i + 1) = Inr (str', fp')"
        using "1.prems"(1) True g ok
        by (subst (asm) readLine_loop.simps) (simp add: Let_def)
      from "1.IH" [OF True refl g [symmetric] refl ok this] True
      obtain w where "cs = w @ fp'" "str' = (str @ [c]) @ w" "list_all lowercase w"
        "i + 1 + length w = n"
        by (auto simp: char_of_to_char)
      with Cons low have "fp = (c # w) @ fp' \<and> str' = str @ (c # w) \<and>
          list_all lowercase (c # w) \<and> i + length (c # w) = n"
        by simp
      then show ?thesis by blast
    qed
  qed
qed

lemma readLine_loop_Inl: "readLine_loop fp str n i = Inl e \<Longrightarrow> e = InvalidWordFormat"
proof (induction fp str n i rule: readLine_loop.induct)
  case (1 fp str n i)
  show ?case
  proof (cases "i < n")
    case False
    with "1.prems" show ?thesis
      by (subst (asm) readLine_loop.simps) simp
  next
    case True
    obtain c fp2 where g: "getc fp = (c, fp2)"
      by (cases "getc fp")
    show ?thesis
    proof (cases "to_char c < LOWERCASE_A \<or> LOWERCASE_Z < to_char c")
      case bad: True
      with "1.prems" True g show ?thesis
        by (subst (asm) readLine_loop.simps) (simp add: Let_def)
    next
      case ok: False
      have "readLine_loop fp2 (str @ [char_of (to_char c)]) n (i + 1) = Inl e"
        using "1.prems" True g ok
        by (subst (asm) readLine_loop.simps) (simp add: Let_def)
      from "1.IH" [OF True refl g [symmetric] refl ok this] show ?thesis .
    qed
  qed
qed

text \<open>
  The three ways in which \<open>readLine\<close> accepts a record, read off the bytes
  that follow the letters; byte 255 is taken for the end of the file.
\<close>

lemma readLine_word:
  assumes "list_all lowercase w" and "length w = n"
  shows "readLine (w @ rest) n =
     (case rest of
        [] \<Rightarrow> Inr (False, w, [])
      | c # cs \<Rightarrow>
          if c = CHR 0xFF then Inr (False, w, cs)
          else if c \<noteq> CHR 0x0A then Inl InvalidWordFormat
          else
            (case cs of
               [] \<Rightarrow> Inr (False, w, [])
             | d # ds \<Rightarrow> if d = CHR 0xFF then Inr (False, w, ds) else Inr (True, w, d # ds)))"
proof -
  have l: "readLine_loop (w @ rest) [] n 0 = Inr (w, rest)"
    using readLine_loop_word [OF assms(1), of 0 n rest "[]"] assms(2) by simp
  show ?thesis
  proof (cases rest)
    case Nil
    then show ?thesis
      unfolding readLine_def l [unfolded Nil] Nil by (simp add: getc_def EOF_def to_char_numerals)
  next
    case (Cons c cs)
    note rest = this
    show ?thesis
    proof (cases "c = CHR 0x0A")
      case False
      then show ?thesis
        unfolding readLine_def l [unfolded rest] rest
        using to_char_eq_EOF [of c] to_char_eq_LINE_FEED [of c]
        by (simp add: getc_def EOF_def LINE_FEED_def Let_def)
    next
      case lf: True
      have c: "to_char (int (of_char c)) = 10"
        using lf to_char_eq_LINE_FEED [of c] by simp
      show ?thesis
      proof (cases cs)
        case Nil
        then show ?thesis
          unfolding readLine_def l [unfolded rest] rest using lf
          by (simp add: getc_def EOF_def LINE_FEED_def Let_def to_char_numerals)
      next
        case (Cons d ds)
        then show ?thesis
          unfolding readLine_def l [unfolded rest] rest using lf to_char_eq_EOF [of d]
          by (simp add: getc_def EOF_def LINE_FEED_def Let_def to_char_numerals ungetc_to_char)
      qed
    qed
  qed
qed

lemma readLine_Inl: "readLine fp n = Inl e \<Longrightarrow> e = InvalidWordFormat"
  by (auto simp: readLine_def Let_def dest: readLine_loop_Inl
      split: sum.splits prod.splits if_splits)

lemma readLine_Inr:
  assumes "readLine fp n = Inr (more, str, fp')"
  shows "\<exists>rest. fp = str @ rest \<and> list_all lowercase str \<and> length str = n"
proof -
  from assms obtain fp1 where "readLine_loop fp [] n 0 = Inr (str, fp1)"
    by (auto simp: readLine_def Let_def split: sum.splits prod.splits if_splits)
  from readLine_loop_Inr [OF this] show ?thesis
    by auto
qed

section \<open>The capacity of the word list\<close>

lemma least_capacity_cases:
  "least_capacity len =
    (if len \<le> 10 then 10 else if len \<le> 20 then 20 else if len \<le> 40 then 40
     else if len \<le> 80 then 80 else if len \<le> 160 then 160 else if len \<le> 320 then 320
     else if len \<le> 640 then 640 else if len \<le> 1280 then 1280 else if len \<le> 2560 then 2560
     else if len \<le> 5120 then 5120 else if len \<le> 10240 then 10240
     else if len \<le> 20480 then 20480 else if len \<le> 40960 then 40960
     else if len \<le> 81920 then 81920 else 100000)"
  by (simp add: least_capacity_def capacities_def WORD_LIMIT_def)

lemma half_limit: "WORD_LIMIT sdiv 2 = 50000"
  by (simp add: WORD_LIMIT_def signed_divide_int_def)

lemma grow_least_capacity:
  "len < WORD_LIMIT \<Longrightarrow>
     (if len = least_capacity len
      then (if least_capacity len > WORD_LIMIT sdiv 2 then WORD_LIMIT else least_capacity len * 2)
      else least_capacity len) = least_capacity (len + 1)"
  unfolding half_limit least_capacity_cases WORD_LIMIT_def
  by (simp split: if_splits)

lemma least_capacity_bounds:
  "len \<le> WORD_LIMIT \<Longrightarrow> len \<le> least_capacity len \<and> least_capacity len \<le> WORD_LIMIT"
  unfolding least_capacity_cases WORD_LIMIT_def by simp

lemma least_capacity_0: "least_capacity 0 = INITIAL_CAPACITY"
  by (simp add: least_capacity_cases INITIAL_CAPACITY_def)

section \<open>Reading the word list\<close>

text \<open>One turn of the loop of \<open>readWords\<close>, after \<open>readLine\<close> has returned.\<close>

lemma readWords_loop_step:
  assumes "readLine fp WORD_LEN = Inr (more, str, fp')"
    and "cap = least_capacity (int (length wordList))"
    and "int (length wordList) \<le> WORD_LIMIT"
  shows "readWords_loop fp wordList cap =
     (if int (length wordList) = WORD_LIMIT then Inl CapacityExceeded
      else if more
        then readWords_loop fp' (wordList @ [str]) (least_capacity (int (length (wordList @ [str]))))
        else Inr (wordList @ [str], least_capacity (int (length (wordList @ [str])))))"
proof (cases "int (length wordList) = WORD_LIMIT")
  case True
  then show ?thesis
    by (subst readWords_loop.simps) (simp add: assms(1) Let_def)
next
  case False
  with assms(3) have lt: "int (length wordList) < WORD_LIMIT"
    by simp
  have len: "int (length (wordList @ [str])) = int (length wordList) + 1"
    by simp
  have g: "(if int (length wordList) = cap
       then (if cap > WORD_LIMIT sdiv 2 then WORD_LIMIT else cap * 2) else cap)
      = least_capacity (int (length (wordList @ [str])))"
    unfolding assms(2) len by (rule grow_least_capacity [OF lt])
  show ?thesis
    using False by (subst readWords_loop.simps) (simp add: assms(1) Let_def g)
qed

lemma readLine_cases:
  assumes "readLine fp n = Inr (more, str, fp')"
  shows "list_all lowercase str \<and> length str = n \<and>
     (if more then \<exists>d ds. d \<noteq> CHR 0xFF \<and> fp = str @ CHR 0x0A # d # ds \<and> fp' = d # ds
      else fp = str \<or> fp = str @ [CHR 0x0A] \<or> (\<exists>cs. fp = str @ CHR 0xFF # cs) \<or>
           (\<exists>ds. fp = str @ CHR 0x0A # CHR 0xFF # ds))"
proof -
  from readLine_Inr [OF assms] obtain rest where
    fp: "fp = str @ rest" and low: "list_all lowercase str" and len: "length str = n"
    by blast
  note w = readLine_word [OF low len, of rest, folded fp, unfolded assms]
  show ?thesis
  proof (cases rest)
    case Nil
    with w fp low len show ?thesis by simp
  next
    case (Cons c cs)
    note rest = this
    show ?thesis
    proof (cases cs)
      case Nil
      with w fp low len rest show ?thesis
        by (auto split: if_splits)
    next
      case (Cons d ds)
      with w fp low len rest show ?thesis
        by (auto split: if_splits)
    qed
  qed
qed

lemma lowercase_not_special: "lowercase d \<Longrightarrow> d \<noteq> CHR 0xFF \<and> d \<noteq> CHR 0x0A"
  by (auto simp: lowercase_def LOWERCASE_A_def LOWERCASE_Z_def)

lemma valid_word_lowercase: "valid_word w \<Longrightarrow> list_all lowercase w \<and> length w = WORD_LEN"
  by (simp add: valid_word_def)

lemma readLine_more:
  "valid_word w \<Longrightarrow> lowercase d \<Longrightarrow>
     readLine (w @ CHR 0x0A # d # ds) WORD_LEN = Inr (True, w, d # ds)"
  using readLine_word [of w WORD_LEN "CHR 0x0A # d # ds"] lowercase_not_special [of d]
  by (simp add: valid_word_def)

lemma readLine_last:
  "valid_word w \<Longrightarrow> readLine w WORD_LEN = Inr (False, w, [])"
  "valid_word w \<Longrightarrow> readLine (w @ [CHR 0x0A]) WORD_LEN = Inr (False, w, [])"
  using readLine_word [of w WORD_LEN "[]"] readLine_word [of w WORD_LEN "[CHR 0x0A]"]
  by (simp_all add: valid_word_def)

lemma readLine_accepts:
  assumes "valid_word w" and "rest = [] \<or> hd rest = CHR 0x0A"
  shows "\<exists>more fp'. readLine (w @ rest) WORD_LEN = Inr (more, w, fp')"
proof (cases rest)
  case Nil
  with assms(1) readLine_last(1) [of w] show ?thesis by auto
next
  case (Cons c cs)
  with assms(2) have c: "c = CHR 0x0A" by simp
  show ?thesis
    using readLine_word [of w WORD_LEN rest] assms(1) c Cons
    by (cases cs) (auto simp: valid_word_def)
qed

section \<open>Word sources\<close>

lemma records_Cons: "records (w # ws) = w @ CHR 0x0A # records ws"
  by (simp add: records_def)

lemma records_Nil: "records [] = []"
  by (simp add: records_def)

lemma records_eq_Nil: "records ws = [] \<longleftrightarrow> ws = []"
  by (cases ws) (simp_all add: records_def)

lemma butlast_records_Cons:
  "ws \<noteq> [] \<Longrightarrow> butlast (records (w # ws)) = w @ CHR 0x0A # butlast (records ws)"
  by (simp add: records_Cons butlast_append records_eq_Nil)

lemma butlast_records_single: "butlast (records [w]) = w"
  by (simp add: records_def butlast_append)

lemma valid_word_head: "valid_word w \<Longrightarrow> \<exists>d ds. w = d # ds \<and> lowercase d"
  by (cases w) (auto simp: valid_word_def WORD_LEN_def)

lemma source_head:
  assumes "ws \<noteq> []" and "list_all valid_word ws"
    and "s = records ws @ rest \<or> s = butlast (records ws)"
  shows "\<exists>d ds. s = d # ds \<and> lowercase d"
proof -
  from assms(1) obtain w ws' where ws: "ws = w # ws'"
    by (cases ws) auto
  with assms(2) valid_word_head [of w] obtain d ds where w: "w = d # ds" "lowercase d"
    by auto
  show ?thesis
  proof (cases "ws' = []")
    case True
    with assms(3) ws w show ?thesis
      by (auto simp: records_Cons records_Nil butlast_records_single)
  next
    case False
    with assms(3) ws w show ?thesis
      by (auto simp: records_Cons butlast_records_Cons)
  qed
qed

section \<open>The loop of readWords on a sequence of records\<close>

lemma readWords_loop_loads:
  "list_all valid_word ws \<Longrightarrow> ws \<noteq> [] \<Longrightarrow>
   int (length wordList) + int (length ws) \<le> WORD_LIMIT \<Longrightarrow>
   cap = least_capacity (int (length wordList)) \<Longrightarrow>
   readWords_loop (word_source ws lf) wordList cap =
     Inr (wordList @ ws, least_capacity (int (length (wordList @ ws))))"
proof (induction ws arbitrary: wordList cap)
  case Nil
  then show ?case by simp
next
  case (Cons w ws)
  from Cons.prems have w: "valid_word w" and bound: "int (length wordList) < WORD_LIMIT"
    by auto
  show ?case
  proof (cases "ws = []")
    case True
    have "readLine (word_source [w] lf) WORD_LEN = Inr (False, w, [])"
      using readLine_last [OF w] by (simp add: word_source_def records_def)
    from readWords_loop_step [OF this Cons.prems(4)] bound True show ?thesis
      by simp
  next
    case False
    have shape: "word_source ws lf = records ws @ [] \<or> word_source ws lf = butlast (records ws)"
      by (simp add: word_source_def)
    from Cons.prems(1) have "list_all valid_word ws"
      by simp
    from source_head [OF False this shape]
    obtain d ds where next_word: "word_source ws lf = d # ds" "lowercase d"
      by blast
    have src: "word_source (w # ws) lf = w @ CHR 0x0A # word_source ws lf"
      using butlast_records_Cons [OF False, of w] by (cases lf) (simp_all add: word_source_def records_Cons)
    have "readLine (word_source (w # ws) lf) WORD_LEN = Inr (True, w, word_source ws lf)"
      unfolding src next_word(1) using w next_word(2) by (rule readLine_more)
    from readWords_loop_step [OF this Cons.prems(4)] bound
    have "readWords_loop (word_source (w # ws) lf) wordList cap =
        readWords_loop (word_source ws lf) (wordList @ [w])
          (least_capacity (int (length (wordList @ [w]))))"
      by simp
    also have "\<dots> = Inr ((wordList @ [w]) @ ws, least_capacity (int (length ((wordList @ [w]) @ ws))))"
      using Cons.prems False by (intro Cons.IH) auto
    finally show ?thesis by simp
  qed
qed

lemma readWords_loop_exceeds:
  "list_all valid_word ws \<Longrightarrow> ws \<noteq> [] \<Longrightarrow>
   int (length wordList) \<le> WORD_LIMIT \<Longrightarrow>
   int (length wordList) + int (length ws) > WORD_LIMIT \<Longrightarrow>
   cap = least_capacity (int (length wordList)) \<Longrightarrow>
   fp = records ws @ rest \<or> fp = butlast (records ws) \<Longrightarrow>
   readWords_loop fp wordList cap = Inl CapacityExceeded"
proof (induction ws arbitrary: wordList cap fp)
  case Nil
  then show ?case by simp
next
  case (Cons w ws)
  from Cons.prems have w: "valid_word w"
    by auto
  show ?case
  proof (cases "int (length wordList) = WORD_LIMIT")
    case True
    from Cons.prems(6) consider (full) "fp = records (w # ws) @ rest"
      | (cut) "fp = butlast (records (w # ws))"
      by blast
    then have "\<exists>r. fp = w @ r \<and> (r = [] \<or> hd r = CHR 0x0A)"
    proof cases
      case full
      then show ?thesis
        by (simp add: records_Cons)
    next
      case cut
      show ?thesis
      proof (cases "ws = []")
        case True
        with cut show ?thesis
          by (simp add: butlast_records_single)
      next
        case False
        with cut show ?thesis
          by (simp add: butlast_records_Cons)
      qed
    qed
    then obtain r where "fp = w @ r" "r = [] \<or> hd r = CHR 0x0A"
      by blast
    with readLine_accepts [OF w, of r] obtain more fp' where
      "readLine fp WORD_LEN = Inr (more, w, fp')"
      by auto
    from readWords_loop_step [OF this Cons.prems(5,3)] True show ?thesis
      by simp
  next
    case False
    with Cons.prems have bound: "int (length wordList) < WORD_LIMIT" and ne: "ws \<noteq> []"
      by auto
    define fp' where "fp' = (if fp = records (w # ws) @ rest then records ws @ rest
      else butlast (records ws))"
    have fp: "fp = w @ CHR 0x0A # fp'"
    proof (cases "fp = records (w # ws) @ rest")
      case True
      then show ?thesis
        by (simp add: fp'_def records_Cons)
    next
      case False
      with Cons.prems(6) have "fp = butlast (records (w # ws))"
        by blast
      with False ne show ?thesis
        by (simp add: fp'_def butlast_records_Cons)
    qed
    have shape: "fp' = records ws @ rest \<or> fp' = butlast (records ws)"
      by (simp add: fp'_def)
    from Cons.prems(1) have "list_all valid_word ws"
      by simp
    from source_head [OF ne this shape]
    obtain d ds where next_word: "fp' = d # ds" "lowercase d"
      by blast
    have "readLine fp WORD_LEN = Inr (True, w, fp')"
      unfolding fp next_word(1) using w next_word(2) by (rule readLine_more)
    from readWords_loop_step [OF this Cons.prems(5,3)] bound
    have "readWords_loop fp wordList cap =
        readWords_loop fp' (wordList @ [w]) (least_capacity (int (length (wordList @ [w]))))"
      by simp
    also have "\<dots> = Inl CapacityExceeded"
      using Cons.prems ne bound shape by (intro Cons.IH) auto
    finally show ?thesis .
  qed
qed

section \<open>What a run of the loop says about the file\<close>

lemma word_source_Cons:
  "ws \<noteq> [] \<Longrightarrow> word_source (w # ws) lf = w @ CHR 0x0A # word_source ws lf"
  using butlast_records_Cons [of ws w] by (cases lf) (simp_all add: word_source_def records_Cons)

lemma word_source_single: "word_source [w] True = w @ [CHR 0x0A]" "word_source [w] False = w"
  by (simp_all add: word_source_def records_def)

lemma readLine_shorter:
  assumes "readLine fp n = Inr (True, str, fp')"
  shows "length fp' < length fp"
  using readLine_cases [OF assms] by auto

lemma readWords_loop_Inr:
  "readWords_loop fp wordList cap = Inr (wordList', cap') \<Longrightarrow>
   int (length wordList) \<le> WORD_LIMIT \<Longrightarrow>
   cap = least_capacity (int (length wordList)) \<Longrightarrow>
   \<exists>ws. ws \<noteq> [] \<and> wordList' = wordList @ ws \<and> list_all valid_word ws \<and>
     int (length wordList') \<le> WORD_LIMIT \<and> cap' = least_capacity (int (length wordList')) \<and>
     (CHR 0xFF \<notin> set fp \<longrightarrow> (\<exists>lf. fp = word_source ws lf))"
proof (induction "length fp" arbitrary: fp wordList cap rule: less_induct)
  case less
  show ?case
  proof (cases "readLine fp WORD_LEN")
    case (Inl e)
    with less.prems(1) show ?thesis
      by (subst (asm) readWords_loop.simps) simp
  next
    case (Inr x)
    then obtain more str fp1 where rl: "readLine fp WORD_LEN = Inr (more, str, fp1)"
      by (cases x) auto
    note step = readWords_loop_step [OF rl less.prems(3,2)]
    from step less.prems(1) have bound: "int (length wordList) < WORD_LIMIT"
      using less.prems(2) by (auto split: if_splits)
    from readLine_cases [OF rl] have str: "valid_word str"
      by (simp add: valid_word_def)
    show ?thesis
    proof (cases more)
      case False
      with step bound less.prems(1) have res: "wordList' = wordList @ [str]"
        "cap' = least_capacity (int (length (wordList @ [str])))"
        by auto
      have "\<exists>lf. fp = word_source [str] lf" if "CHR 0xFF \<notin> set fp"
      proof -
        from readLine_cases [OF rl] False that have "fp = str \<or> fp = str @ [CHR 0x0A]"
          by auto
        then show ?thesis
          using word_source_single [of str] by metis
      qed
      with res str bound show ?thesis
        by (intro exI [of _ "[str]"]) auto
    next
      case True
      with readLine_cases [OF rl] obtain d ds where
        fp: "fp = str @ CHR 0x0A # fp1" and fp1: "fp1 = d # ds"
        by auto
      from True step bound less.prems(1) have
        "readWords_loop fp1 (wordList @ [str]) (least_capacity (int (length (wordList @ [str]))))
          = Inr (wordList', cap')"
        by auto
      moreover have "length fp1 < length fp"
        using fp by simp
      moreover have "int (length (wordList @ [str])) \<le> WORD_LIMIT"
        using bound by simp
      ultimately obtain ws where ws: "ws \<noteq> []" "wordList' = (wordList @ [str]) @ ws"
        "list_all valid_word ws" "int (length wordList') \<le> WORD_LIMIT"
        "cap' = least_capacity (int (length wordList'))"
        "CHR 0xFF \<notin> set fp1 \<longrightarrow> (\<exists>lf. fp1 = word_source ws lf)"
        using less.hyps [of fp1 "wordList @ [str]"
            "least_capacity (int (length (wordList @ [str])))"]
        by blast
      have "\<exists>lf. fp = word_source (str # ws) lf" if "CHR 0xFF \<notin> set fp"
      proof -
        from that fp have "CHR 0xFF \<notin> set fp1"
          by simp
        with ws(6) obtain lf where "fp1 = word_source ws lf"
          by blast
        with fp word_source_Cons [OF ws(1), of str lf] have "fp = word_source (str # ws) lf"
          by simp
        then show ?thesis ..
      qed
      with ws str show ?thesis
        by (intro exI [of _ "str # ws"]) auto
    qed
  qed
qed

lemma readWords_loop_Inl:
  "readWords_loop fp wordList cap = Inl e \<Longrightarrow>
   int (length wordList) \<le> WORD_LIMIT \<Longrightarrow>
   cap = least_capacity (int (length wordList)) \<Longrightarrow>
   e = InvalidWordFormat \<or> e = CapacityExceeded"
proof (induction "length fp" arbitrary: fp wordList cap rule: less_induct)
  case less
  show ?case
  proof (cases "readLine fp WORD_LEN")
    case (Inl e')
    then have "readWords_loop fp wordList cap = Inl e'"
      by (subst readWords_loop.simps) simp
    with less.prems(1) readLine_Inl [OF Inl] show ?thesis
      by simp
  next
    case (Inr x)
    then obtain more str fp1 where rl: "readLine fp WORD_LEN = Inr (more, str, fp1)"
      by (cases x) auto
    note step = readWords_loop_step [OF rl less.prems(3,2)]
    show ?thesis
    proof (cases "int (length wordList) = WORD_LIMIT")
      case True
      with step less.prems(1) show ?thesis
        by simp
    next
      case False
      with less.prems(2) have bound: "int (length (wordList @ [str])) \<le> WORD_LIMIT"
        by simp
      from False step less.prems(1) have more and
        rec: "readWords_loop fp1 (wordList @ [str])
          (least_capacity (int (length (wordList @ [str])))) = Inl e"
        by (auto split: if_splits)
      from readLine_shorter [OF rl [unfolded \<open>more\<close> [THEN eqTrueI]]]
      have "length fp1 < length fp" .
      from less.hyps [OF this rec bound refl] show ?thesis .
    qed
  qed
qed

lemma readWords_loop_CapacityExceeded:
  "readWords_loop fp wordList cap = Inl CapacityExceeded \<Longrightarrow>
   int (length wordList) \<le> WORD_LIMIT \<Longrightarrow>
   cap = least_capacity (int (length wordList)) \<Longrightarrow>
   CHR 0xFF \<notin> set fp \<Longrightarrow>
   \<exists>ws rest. ws \<noteq> [] \<and> list_all valid_word ws \<and>
     int (length wordList) + int (length ws) = WORD_LIMIT + 1 \<and>
     (fp = records ws @ rest \<or> fp = butlast (records ws))"
proof (induction "length fp" arbitrary: fp wordList cap rule: less_induct)
  case less
  show ?case
  proof (cases "readLine fp WORD_LEN")
    case (Inl e')
    then have "readWords_loop fp wordList cap = Inl e'"
      by (subst readWords_loop.simps) simp
    with less.prems(1) readLine_Inl [OF Inl] show ?thesis
      by simp
  next
    case (Inr x)
    then obtain more str fp1 where rl: "readLine fp WORD_LEN = Inr (more, str, fp1)"
      by (cases x) auto
    note step = readWords_loop_step [OF rl less.prems(3,2)]
    from readLine_cases [OF rl] have str: "valid_word str"
      by (simp add: valid_word_def)
    show ?thesis
    proof (cases "int (length wordList) = WORD_LIMIT")
      case True
      from readLine_cases [OF rl] less.prems(4)
      have "(\<exists>rest. fp = str @ CHR 0x0A # rest) \<or> fp = str"
        by (cases more) auto
      then have "(\<exists>rest. fp = records [str] @ rest) \<or> fp = butlast (records [str])"
        by (simp add: records_def butlast_append)
      with True str show ?thesis
        by (intro exI [of _ "[str]"]) auto
    next
      case False
      with less.prems(2) have bound: "int (length (wordList @ [str])) \<le> WORD_LIMIT"
        by simp
      from False step less.prems(1) have more and
        rec: "readWords_loop fp1 (wordList @ [str])
          (least_capacity (int (length (wordList @ [str])))) = Inl CapacityExceeded"
        by (auto split: if_splits)
      from readLine_cases [OF rl] \<open>more\<close> have fp: "fp = str @ CHR 0x0A # fp1"
        by auto
      with less.prems(4) have clean: "CHR 0xFF \<notin> set fp1" and shorter: "length fp1 < length fp"
        by simp_all
      from less.hyps [OF shorter rec bound refl clean] obtain ws rest where
        ws: "ws \<noteq> []" "list_all valid_word ws"
          "int (length (wordList @ [str])) + int (length ws) = WORD_LIMIT + 1"
          "fp1 = records ws @ rest \<or> fp1 = butlast (records ws)"
        by blast
      from ws(4) have "fp = records (str # ws) @ rest \<or> fp = butlast (records (str # ws))"
        using fp butlast_records_Cons [OF ws(1), of str] by (auto simp: records_Cons)
      with ws(1-3) str show ?thesis
        by (intro exI [of _ "str # ws"] exI [of _ rest]) auto
    qed
  qed
qed

section \<open>readWords\<close>

lemma readWords_Some:
  "readWords (Some src) =
     (case readWords_loop src [] (least_capacity 0) of
        Inl e \<Rightarrow> Inl e
      | Inr (wordList, capacity) \<Rightarrow> Inr wordList)"
  by (simp add: readWords_def least_capacity_0)

lemma readWords_empty: "readWords (Some []) = Inl InvalidWordFormat"
  by (simp add: readWords_def readWords_loop.simps readLine_def readLine_loop.simps getc_def
      to_char_def EOF_def LOWERCASE_A_def WORD_LEN_def)

lemma readWords_loads:
  assumes "list_all valid_word ws" and "ws \<noteq> []" and "int (length ws) \<le> WORD_LIMIT"
  shows "readWords_loop (word_source ws lf) [] INITIAL_CAPACITY
      = Inr (ws, least_capacity (int (length ws)))"
    and "readWords (Some (word_source ws lf)) = Inr ws"
proof -
  show l: "readWords_loop (word_source ws lf) [] INITIAL_CAPACITY
      = Inr (ws, least_capacity (int (length ws)))"
    using readWords_loop_loads [OF assms(1,2), of "[]" "least_capacity 0" lf] assms(3)
    by (simp add: least_capacity_0)
  then show "readWords (Some (word_source ws lf)) = Inr ws"
    by (simp add: readWords_def)
qed

lemma readWords_exceeds:
  assumes "list_all valid_word ws" and "int (length ws) > WORD_LIMIT"
    and "src = records ws @ rest \<or> src = butlast (records ws)"
  shows "readWords (Some src) = Inl CapacityExceeded"
proof -
  from assms(2) have "ws \<noteq> []"
    by (auto simp: WORD_LIMIT_def)
  from readWords_loop_exceeds [OF assms(1) this _ _ refl assms(3), of "[]"] assms(2)
  show ?thesis
    by (simp add: readWords_Some WORD_LIMIT_def)
qed

lemma readWords_Inr:
  assumes "readWords file = Inr wordList"
  shows "wordList \<noteq> []" and "int (length wordList) \<le> WORD_LIMIT"
    and "list_all valid_word wordList"
    and "\<exists>src. file = Some src \<and> (CHR 0xFF \<notin> set src \<longrightarrow> (\<exists>lf. src = word_source wordList lf))"
proof -
  from assms obtain src cap where src: "file = Some src"
    and l: "readWords_loop src [] (least_capacity 0) = Inr (wordList, cap)"
    by (auto simp: readWords_def least_capacity_0 split: option.splits sum.splits)
  from readWords_loop_Inr [OF l] obtain ws where
    "ws \<noteq> []" "wordList = [] @ ws" "list_all valid_word ws" "int (length wordList) \<le> WORD_LIMIT"
    "CHR 0xFF \<notin> set src \<longrightarrow> (\<exists>lf. src = word_source ws lf)"
    by (auto simp: WORD_LIMIT_def)
  with src show "wordList \<noteq> []" and "int (length wordList) \<le> WORD_LIMIT"
    and "list_all valid_word wordList"
    and "\<exists>src. file = Some src \<and> (CHR 0xFF \<notin> set src \<longrightarrow> (\<exists>lf. src = word_source wordList lf))"
    by simp_all
qed

lemma capacities_doubling:
  "hd capacities = INITIAL_CAPACITY" "last capacities = WORD_LIMIT"
  "map (\<lambda>c. min WORD_LIMIT (2 * c)) (butlast capacities) = tl capacities"
  by (simp_all add: capacities_def INITIAL_CAPACITY_def WORD_LIMIT_def)

lemma least_capacity_member: "least_capacity len \<in> set capacities"
  by (simp add: least_capacity_cases capacities_def)

text \<open>
  C8. For a word source whose records are all well-formed, \<open>readWords\<close>
  ends the program with \<open>CapacityExceeded\<close> exactly when the source has more
  than \<open>WORD_LIMIT = 100000\<close> words. A source of 1 to 100000 words loads, a
  source of exactly 100000 words among them, and the array then has the first
  capacity of the sequence 10, 20, 40, ..., 81920, 100000 (each the double of the
  one before, capped at 100000) that holds the words.
\<close>

theorem readWords_capacity:
  assumes "list_all valid_word ws"
  shows "(readWords (Some (word_source ws lf)) = Inl CapacityExceeded
            \<longleftrightarrow> int (length ws) > WORD_LIMIT)
       \<and> (ws \<noteq> [] \<and> int (length ws) \<le> WORD_LIMIT \<longrightarrow>
            readWords (Some (word_source ws lf)) = Inr ws
          \<and> readWords_loop (word_source ws lf) [] INITIAL_CAPACITY
              = Inr (ws, least_capacity (int (length ws)))
          \<and> int (length ws) \<le> least_capacity (int (length ws))
          \<and> least_capacity (int (length ws)) \<in> set capacities)
       \<and> readWords (Some (word_source (replicate 100000 ''apple'') lf))
            = Inr (replicate 100000 ''apple'')
       \<and> hd capacities = INITIAL_CAPACITY \<and> last capacities = WORD_LIMIT
       \<and> map (\<lambda>c. min WORD_LIMIT (2 * c)) (butlast capacities) = tl capacities"
proof -
  have exceeded: "readWords (Some (word_source ws lf)) = Inl CapacityExceeded"
    if "int (length ws) > WORD_LIMIT"
    using assms that
  proof (rule readWords_exceeds)
    show "word_source ws lf = records ws @ [] \<or> word_source ws lf = butlast (records ws)"
      by (simp add: word_source_def)
  qed
  have loaded: "readWords (Some (word_source ws lf)) \<noteq> Inl CapacityExceeded"
    if "\<not> int (length ws) > WORD_LIMIT"
  proof (cases "ws = []")
    case True
    then show ?thesis
      by (simp add: word_source_def records_def readWords_empty)
  next
    case False
    with readWords_loads(2) [OF assms False, of lf] that show ?thesis
      by simp
  qed
  have apple: "list_all valid_word (replicate 100000 ''apple'')"
    by (simp add: list_all_iff valid_word_def WORD_LEN_def lowercase_def
        LOWERCASE_A_def LOWERCASE_Z_def)
  have full: "readWords (Some (word_source (replicate 100000 ''apple'') lf))
      = Inr (replicate 100000 ''apple'')"
    by (rule readWords_loads(2) [OF apple]) (simp_all add: WORD_LIMIT_def)
  from exceeded loaded readWords_loads [OF assms, of lf] full capacities_doubling
    least_capacity_bounds [of "int (length ws)"] least_capacity_member [of "int (length ws)"]
  show ?thesis
    by blast
qed

theorem readWords_capacity_witness:
  "list_all valid_word [''apple'', ''baker'']
   \<and> \<not> int (length [''apple'', ''baker'']) > WORD_LIMIT
   \<and> readWords (Some (word_source [''apple'', ''baker''] True)) \<noteq> Inl CapacityExceeded
   \<and> readWords (Some (word_source [''apple'', ''baker''] True)) = Inr [''apple'', ''baker'']
   \<and> readWords_loop (word_source [''apple'', ''baker''] True) [] INITIAL_CAPACITY
        = Inr ([''apple'', ''baker''], 10)"
proof -
  have v: "list_all valid_word [''apple'', ''baker'']"
    by (simp add: valid_word_def WORD_LEN_def lowercase_def LOWERCASE_A_def LOWERCASE_Z_def)
  have "least_capacity 2 = 10"
    by (simp add: least_capacity_def capacities_def)
  with v readWords_capacity [OF v, of True] show ?thesis
    by (simp add: WORD_LIMIT_def)
qed

text \<open>
  A successful \<open>readWords\<close> leaves at least one word and at most
  \<open>WORD_LIMIT\<close> words; the empty source is rejected as a format error,
  because \<open>readLine\<close> meets the end of the file where it requires a
  lowercase letter. So after a successful load the divisor of \<open>chooseWord\<close>
  is not zero, and for a seed that is not negative its index lies inside the
  word list and it returns the word at that index.
\<close>

lemma chooseWord_after_load:
  assumes "readWords file = Inr wordList" and "0 \<le> seed"
  shows "1 \<le> int (length wordList) \<and> int (length wordList) \<le> WORD_LIMIT
       \<and> 0 \<le> randomIndex seed (int (length wordList))
       \<and> randomIndex seed (int (length wordList)) < int (length wordList)
       \<and> chooseWord seed wordList
            = Some (wordList ! nat (randomIndex seed (int (length wordList))))
       \<and> getc [] = (EOF, [])
       \<and> readLine [] WORD_LEN = Inl InvalidWordFormat
       \<and> readWords (Some []) = Inl InvalidWordFormat"
proof -
  let ?n = "int (length wordList)"
  note r = readWords_Inr [OF assms(1)]
  from r(1) have n: "1 \<le> ?n"
    by (cases wordList) auto
  have idx: "randomIndex seed ?n = (seed mod ?n) * MULTIPLIER mod ?n"
    using assms(2) n r(2) by (rule randomIndex_exact)
  have pos: "0 < ?n"
    using n by linarith
  have lo: "0 \<le> randomIndex seed ?n" and hi: "randomIndex seed ?n < ?n"
    unfolding idx using pos by (rule pos_mod_sign, rule pos_mod_bound)
  have "nat (randomIndex seed ?n) < length wordList"
    using lo hi by linarith
  then have "valid_word (wordList ! nat (randomIndex seed ?n))"
    using r(3) by (simp add: list_all_length)
  then have "take WORD_LEN (wordList ! nat (randomIndex seed ?n))
      = wordList ! nat (randomIndex seed ?n)"
    by (simp add: valid_word_def)
  then have c: "chooseWord seed wordList = Some (wordList ! nat (randomIndex seed ?n))"
    using r(1) lo hi by (simp add: chooseWord_def Let_def)
  have e: "readLine [] WORD_LEN = Inl InvalidWordFormat"
    by (simp add: readLine_def readLine_loop.simps getc_def to_char_def EOF_def
        LOWERCASE_A_def WORD_LEN_def)
  from n r(2) lo hi c e readWords_empty show ?thesis
    by (simp add: getc_def)
qed

lemma chooseWord_after_load_example:
  "readWords (Some ''apple'') = Inr [''apple'']
   \<and> (0::int) \<le> 7
   \<and> chooseWord 7 [''apple''] = Some ''apple''
   \<and> readWords (Some []) = Inl InvalidWordFormat"
proof -
  have r: "readWords (Some ''apple'') = Inr [''apple'']"
    by (simp add: readWords_def readWords_loop.simps readLine_def readLine_loop.simps getc_def
        to_char_def ungetc_def EOF_def LINE_FEED_def LOWERCASE_A_def LOWERCASE_Z_def
        WORD_LEN_def WORD_LIMIT_def INITIAL_CAPACITY_def Let_def char_of_def)
  from chooseWord_after_load [OF r, of 7] r show ?thesis
    by (simp add: randomIndex_def s64_def signed_modulo_int_def)
qed

section \<open>Termination of the sort\<close>

text \<open>
  C9. \<open>mergeSort\<close> returns on every word list of length \<open>n \<ge> 1\<close>: for
  \<open>n \<ge> 2\<close> the two halves have sizes \<open>n / 2\<close> and \<open>n - n / 2\<close>, both
  at least 1 and smaller than \<open>n\<close>, and \<open>n = 1\<close> returns at once. So
  \<open>sort\<close> returns on every lexicon that a successful \<open>readWords\<close> has
  produced. With \<open>n = 0\<close> the call never returns.
\<close>

theorem mergeSort_terminates:
  "(list \<noteq> [] \<longrightarrow> (\<exists>r. mergeSort list (int (length list)) = Some r))
   \<and> (readWords file = Inr wordList \<longrightarrow> (\<exists>r. sort_words wordList = Some r))
   \<and> mergeSort list 0 = None
   \<and> (2 \<le> (n::int) \<longrightarrow>
        1 \<le> n sdiv 2 \<and> n sdiv 2 < n
      \<and> 1 \<le> (if n smod 2 = 0 then n sdiv 2 else n sdiv 2 + 1)
      \<and> (if n smod 2 = 0 then n sdiv 2 else n sdiv 2 + 1) < n
      \<and> (if n smod 2 = 0 then n sdiv 2 else n sdiv 2 + 1) = n - n sdiv 2)"
proof -
  have a: "\<exists>r. mergeSort list (int (length list)) = Some r" if "list \<noteq> []"
    using mergeSort_sorts [OF that] by blast
  have b: "\<exists>r. sort_words wordList = Some r" if "readWords file = Inr wordList"
    using sort_eq [OF readWords_Inr(1) [OF that]] by blast
  have c: "(if n smod 2 = 0 then n sdiv 2 else n sdiv 2 + 1) = n - n sdiv 2" if "2 \<le> n"
    using halves(5) [OF that] by linarith
  from a b c mergeSort_zero [of list] halves(1-4) [of n] show ?thesis
    by blast
qed

theorem mergeSort_terminates_witness:
  "[''baker'', ''apple''] \<noteq> []
   \<and> mergeSort [''baker'', ''apple''] 2 = Some [''apple'', ''baker'']
   \<and> readWords (Some ''apple'') = Inr [''apple'']
   \<and> sort_words [''apple''] = Some (Inr [''apple''])
   \<and> mergeSort [''baker'', ''apple''] 0 = None
   \<and> (2::int) \<le> 5 \<and> (5::int) sdiv 2 = 2 \<and> (5::int) - 5 sdiv 2 = 3"
proof -
  have r: "readWords (Some ''apple'') = Inr [''apple'']"
    by (simp add: readWords_def readWords_loop.simps readLine_def readLine_loop.simps getc_def
        to_char_def ungetc_def EOF_def LINE_FEED_def LOWERCASE_A_def LOWERCASE_Z_def
        WORD_LEN_def WORD_LIMIT_def INITIAL_CAPACITY_def Let_def char_of_def)
  have m: "mergeSort [''baker'', ''apple''] 2 = Some [''apple'', ''baker'']"
    by (simp add: mergeSort.simps copyArray_def merge_def merge_loop.simps
        signed_divide_int_def signed_modulo_int_def upto.simps Let_def)
  have s: "sort_words [''apple''] = Some (Inr [''apple''])"
    by (simp add: sort_words_def mergeSort.simps duplicate_scan.simps)
  from mergeSort_terminates [of "[''baker'', ''apple'']" "Some ''apple''" "[''apple'']" 5] r m s
  show ?thesis
    by (simp add: signed_divide_int_def)
qed

section \<open>The format accepted by readWords\<close>

text \<open>
  Byte 255 after the letters of a record, or after its line feed, is taken for
  the end of the file: the load succeeds and the rest of the file is not read.
\<close>

lemma readWords_byte_255:
  "readWords (Some (''apple'' @ CHR 0xFF # ''zzzzz'')) = Inr [''apple'']"
  by (simp add: readWords_def readWords_loop.simps readLine_def readLine_loop.simps getc_def
      to_char_def ungetc_def EOF_def LINE_FEED_def LOWERCASE_A_def LOWERCASE_Z_def
      WORD_LEN_def WORD_LIMIT_def INITIAL_CAPACITY_def Let_def char_of_def)

text \<open>
  C7, as stated, fails: a source of 100001 records, each of them five lowercase
  letters and a line feed, does not load, and the failure is not
  \<open>InvalidWordFormat\<close>.
\<close>

theorem readWords_format_counterexample:
  "list_all valid_word (replicate 100001 ''apple'')
   \<and> readWords (Some (word_source (replicate 100001 ''apple'') True)) = Inl CapacityExceeded"
proof -
  have v: "list_all valid_word (replicate 100001 ''apple'')"
    by (simp add: list_all_iff valid_word_def WORD_LEN_def lowercase_def
        LOWERCASE_A_def LOWERCASE_Z_def)
  have "readWords (Some (word_source (replicate 100001 ''apple'') True)) = Inl CapacityExceeded"
    by (rule readWords_exceeds [OF v, where rest = "[]"])
      (simp_all add: WORD_LIMIT_def word_source_def)
  with v show ?thesis ..
qed

text \<open>
  C7, amended. For a word source without byte 255: \<open>readWords\<close> succeeds
  exactly when the source is a sequence of 1 to \<open>WORD_LIMIT\<close> records, each
  of them \<open>WORD_LEN = 5\<close> lowercase ASCII letters followed by a line feed,
  the line feed of the final record being optional; the lexicon is then these
  words in their order. A source that begins with \<open>WORD_LIMIT + 1\<close> such
  records fails with \<open>CapacityExceeded\<close>, and every other source fails with
  \<open>InvalidWordFormat\<close>. A failure is fatal for the whole load: no lexicon
  is returned.
\<close>

theorem readWords_format:
  assumes "CHR 0xFF \<notin> set src"
  shows "(readWords (Some src) = Inr ws \<longleftrightarrow>
            ws \<noteq> [] \<and> int (length ws) \<le> WORD_LIMIT \<and> list_all valid_word ws \<and>
            (\<exists>lf. src = word_source ws lf))
       \<and> (readWords (Some src) = Inl CapacityExceeded \<longleftrightarrow>
            (\<exists>ws' rest. int (length ws') = WORD_LIMIT + 1 \<and> list_all valid_word ws' \<and>
               (src = records ws' @ rest \<or> src = butlast (records ws'))))
       \<and> ((\<exists>ws'. readWords (Some src) = Inr ws') \<or>
            readWords (Some src) = Inl CapacityExceeded \<or>
            readWords (Some src) = Inl InvalidWordFormat)"
proof (intro conjI)
  show "readWords (Some src) = Inr ws \<longleftrightarrow>
      ws \<noteq> [] \<and> int (length ws) \<le> WORD_LIMIT \<and> list_all valid_word ws \<and>
      (\<exists>lf. src = word_source ws lf)"
  proof
    assume r: "readWords (Some src) = Inr ws"
    from readWords_Inr [OF r] assms
    show "ws \<noteq> [] \<and> int (length ws) \<le> WORD_LIMIT \<and> list_all valid_word ws \<and>
        (\<exists>lf. src = word_source ws lf)"
      by auto
  next
    assume "ws \<noteq> [] \<and> int (length ws) \<le> WORD_LIMIT \<and> list_all valid_word ws \<and>
        (\<exists>lf. src = word_source ws lf)"
    then show "readWords (Some src) = Inr ws"
      using readWords_loads(2) [of ws] by auto
  qed
next
  show "readWords (Some src) = Inl CapacityExceeded \<longleftrightarrow>
      (\<exists>ws' rest. int (length ws') = WORD_LIMIT + 1 \<and> list_all valid_word ws' \<and>
         (src = records ws' @ rest \<or> src = butlast (records ws')))"
  proof
    assume "readWords (Some src) = Inl CapacityExceeded"
    then have "readWords_loop src [] (least_capacity 0) = Inl CapacityExceeded"
      by (auto simp: readWords_Some split: sum.splits)
    from readWords_loop_CapacityExceeded [OF this _ _ assms]
    show "\<exists>ws' rest. int (length ws') = WORD_LIMIT + 1 \<and> list_all valid_word ws' \<and>
        (src = records ws' @ rest \<or> src = butlast (records ws'))"
      by (auto simp: WORD_LIMIT_def)
  next
    assume "\<exists>ws' rest. int (length ws') = WORD_LIMIT + 1 \<and> list_all valid_word ws' \<and>
        (src = records ws' @ rest \<or> src = butlast (records ws'))"
    then obtain ws' rest where "int (length ws') = WORD_LIMIT + 1" "list_all valid_word ws'"
      "src = records ws' @ rest \<or> src = butlast (records ws')"
      by blast
    then show "readWords (Some src) = Inl CapacityExceeded"
      using readWords_exceeds [of ws' src rest] by simp
  qed
next
  show "(\<exists>ws'. readWords (Some src) = Inr ws') \<or>
      readWords (Some src) = Inl CapacityExceeded \<or>
      readWords (Some src) = Inl InvalidWordFormat"
  proof (cases "readWords_loop src [] (least_capacity 0)")
    case (Inl e)
    from readWords_loop_Inl [OF Inl] have "e = InvalidWordFormat \<or> e = CapacityExceeded"
      by (simp add: WORD_LIMIT_def)
    with Inl show ?thesis
      by (auto simp: readWords_Some)
  next
    case (Inr x)
    then show ?thesis
      by (cases x) (simp add: readWords_Some)
  qed
qed

theorem readWords_format_witness:
  "CHR 0xFF \<notin> set (''apple'' @ CHR 0x0A # ''baker'')
   \<and> readWords (Some (''apple'' @ CHR 0x0A # ''baker'')) = Inr [''apple'', ''baker'']"
proof -
  have c: "CHR 0xFF \<notin> set (''apple'' @ CHR 0x0A # ''baker'')"
    by simp
  have "list_all valid_word [''apple'', ''baker'']"
    by (simp add: valid_word_def WORD_LEN_def lowercase_def LOWERCASE_A_def LOWERCASE_Z_def)
  moreover have "''apple'' @ CHR 0x0A # ''baker'' = word_source [''apple'', ''baker''] False"
    by (simp add: word_source_def records_def)
  ultimately show ?thesis
    using c readWords_format [OF c, of "[''apple'', ''baker'']"]
    by (auto simp: WORD_LIMIT_def)
qed

section \<open>The start of main: the choice of the target word\<close>

lemma ascending_Cons:
  "ascending (x # xs) \<longleftrightarrow> (\<forall>y \<in> set xs. strcmp x y < 0) \<and> ascending xs"
  by (simp add: ascending_def)

lemma ascending_unique:
  "ascending xs \<Longrightarrow> ascending ys \<Longrightarrow> mset xs = mset ys \<Longrightarrow> xs = ys"
proof (induction xs arbitrary: ys)
  case Nil
  then show ?case by simp
next
  case (Cons x xs)
  from Cons.prems(3) obtain y ys' where ys: "ys = y # ys'"
    by (cases ys) auto
  have sets: "set (x # xs) = set (y # ys')"
    using Cons.prems(3) ys by (metis mset_eq_setD)
  have "x = y"
  proof (rule ccontr)
    assume ne: "x \<noteq> y"
    with sets have "x \<in> set ys'" "y \<in> set xs"
      by auto
    with Cons.prems(1,2) ys have "strcmp y x < 0" "strcmp x y < 0"
      by (auto simp: ascending_Cons)
    then have "strcmp x x < 0"
      using strcmp_trans by blast
    then show False
      by (simp add: strcmp_irrefl)
  qed
  moreover from this Cons.prems(3) ys have "mset xs = mset ys'"
    by simp
  with Cons.prems(1,2) ys have "xs = ys'"
    by (intro Cons.IH) (simp_all add: ascending_Cons)
  ultimately show ?case
    using ys by simp
qed

lemma main_startup_Inr:
  assumes "readWords file = Inr wordList" and "0 \<le> seed"
  shows "\<exists>sortedList. mset sortedList = mset wordList
      \<and> main_startup file seed =
          Some (if distinct wordList
                then Inr (wordList ! nat ((seed mod int (length wordList)) * MULTIPLIER
                                           mod int (length wordList)), sortedList)
                else Inl DuplicateWord)
      \<and> (distinct wordList \<longrightarrow> ascending sortedList)
      \<and> (ascending wordList \<longrightarrow> sortedList = wordList)"
proof -
  let ?n = "int (length wordList)"
  note r = readWords_Inr [OF assms(1)]
  from r(1) have n: "1 \<le> ?n"
    by (cases wordList) auto
  have idx: "randomIndex seed ?n = (seed mod ?n) * MULTIPLIER mod ?n"
    using assms(2) n r(2) by (rule randomIndex_exact)
  have pos: "0 < ?n"
    using n by linarith
  have lo: "0 \<le> randomIndex seed ?n" and hi: "randomIndex seed ?n < ?n"
    unfolding idx using pos by (rule pos_mod_sign, rule pos_mod_bound)
  have "nat (randomIndex seed ?n) < length wordList"
    using lo hi by linarith
  then have "valid_word (wordList ! nat (randomIndex seed ?n))"
    using r(3) by (simp add: list_all_length)
  then have "take WORD_LEN (wordList ! nat (randomIndex seed ?n))
      = wordList ! nat (randomIndex seed ?n)"
    by (simp add: valid_word_def)
  then have c: "chooseWord seed wordList =
      Some (wordList ! nat ((seed mod ?n) * MULTIPLIER mod ?n))"
    using r(1) lo hi by (simp add: chooseWord_def Let_def idx [symmetric])
  from sort_eq [OF r(1)] obtain s where
    s: "mset s = mset wordList"
      "sort_words wordList = Some (if distinct wordList then Inr s else Inl DuplicateWord)"
      "distinct wordList \<longrightarrow> ascending s"
    by blast
  have "s = wordList" if "ascending wordList"
  proof -
    from that have "distinct wordList"
      by (rule ascending_distinct)
    with s(3) have "ascending s"
      by simp
    then show ?thesis
      using that s(1) by (rule ascending_unique)
  qed
  with s c assms(1) show ?thesis
    by (intro exI [of _ s]) (simp add: main_startup_def)
qed

text \<open>
  C3, as stated, fails: with the words loaded in the order baker, apple and the
  seed 0, the target is the first loaded word, not the first word of the sorted
  lexicon.
\<close>

theorem main_startup_target_counterexample:
  "main_startup (Some (''baker'' @ CHR 0x0A # ''apple'')) 0
     = Some (Inr (''baker'', [''apple'', ''baker'']))
   \<and> [''apple'', ''baker''] ! nat ((0 mod 2) * MULTIPLIER mod 2) \<noteq> ''baker''"
proof -
  have r: "readWords (Some (''baker'' @ CHR 0x0A # ''apple'')) = Inr [''baker'', ''apple'']"
    by (simp add: readWords_def readWords_loop.simps readLine_def readLine_loop.simps getc_def
        to_char_def ungetc_def EOF_def LINE_FEED_def LOWERCASE_A_def LOWERCASE_Z_def
        WORD_LEN_def WORD_LIMIT_def INITIAL_CAPACITY_def Let_def char_of_def)
  have c: "chooseWord 0 [''baker'', ''apple''] = Some ''baker''"
    by (simp add: chooseWord_def randomIndex_def s64_def WORD_LEN_def)
  have s: "sort_words [''baker'', ''apple''] = Some (Inr [''apple'', ''baker''])"
    by (simp add: sort_words_def mergeSort.simps copyArray_def merge_def merge_loop.simps
        duplicate_scan.simps signed_divide_int_def signed_modulo_int_def upto.simps Let_def)
  from r c s show ?thesis
    by (simp add: main_startup_def MULTIPLIER_def)
qed

text \<open>
  C3, amended. The target word is selected from the lexicon in the order in
  which it was loaded, before the lexicon is sorted: for every word source that
  loads and every non-negative seed, \<open>chooseWord\<close> returns the word at index
  \<open>(seed mod n) * M mod n\<close> of the loaded sequence. After that the lexicon
  is sorted into strictly ascending order and checked for duplicates, and a
  duplicate ends the program. When the words were loaded in ascending order, the
  sorted sequence is the loaded one; so for the lexicon apple, baker, candy and
  seed 0 the target is apple.
\<close>

theorem main_startup_target:
  assumes "readWords file = Inr wordList" and "0 \<le> seed"
  shows "(\<exists>sortedList. mset sortedList = mset wordList
          \<and> main_startup file seed =
              Some (if distinct wordList
                    then Inr (wordList ! nat ((seed mod int (length wordList)) * 4611686018453
                                               mod int (length wordList)), sortedList)
                    else Inl DuplicateWord)
          \<and> (distinct wordList \<longrightarrow> ascending sortedList)
          \<and> (ascending wordList \<longrightarrow> sortedList = wordList))
       \<and> main_startup (Some (word_source [''apple'', ''baker'', ''candy''] True)) 0
            = Some (Inr (''apple'', [''apple'', ''baker'', ''candy'']))"
proof -
  let ?ws = "[''apple'', ''baker'', ''candy'']"
  have v: "list_all valid_word ?ws"
    by (simp add: valid_word_def WORD_LEN_def lowercase_def LOWERCASE_A_def LOWERCASE_Z_def)
  have r: "readWords (Some (word_source ?ws True)) = Inr ?ws"
    by (rule readWords_loads(2) [OF v]) (simp_all add: WORD_LIMIT_def)
  have a: "ascending ?ws"
    by (simp add: ascending_def)
  from main_startup_Inr [OF r, of 0] a ascending_distinct [OF a]
  have "main_startup (Some (word_source ?ws True)) 0 = Some (Inr (''apple'', ?ws))"
    by auto
  with main_startup_Inr [OF assms, unfolded MULTIPLIER_def] show ?thesis
    by (rule conjI)
qed

theorem main_startup_target_witness:
  "readWords (Some (''baker'' @ CHR 0x0A # ''apple'')) = Inr [''baker'', ''apple'']
   \<and> (0::int) \<le> 1
   \<and> distinct [''baker'', ''apple'']
   \<and> main_startup (Some (''baker'' @ CHR 0x0A # ''apple'')) 1
        = Some (Inr (''apple'', [''apple'', ''baker'']))
   \<and> readWords (Some (''apple'' @ CHR 0x0A # ''baker'')) = Inr [''apple'', ''baker'']
   \<and> ascending [''apple'', ''baker'']
   \<and> main_startup (Some (''apple'' @ CHR 0x0A # ''baker'')) 1
        = Some (Inr (''baker'', [''apple'', ''baker'']))"
proof -
  have r: "readWords (Some (''baker'' @ CHR 0x0A # ''apple'')) = Inr [''baker'', ''apple'']"
    by (simp add: readWords_def readWords_loop.simps readLine_def readLine_loop.simps getc_def
        to_char_def ungetc_def EOF_def LINE_FEED_def LOWERCASE_A_def LOWERCASE_Z_def
        WORD_LEN_def WORD_LIMIT_def INITIAL_CAPACITY_def Let_def char_of_def)
  have r': "readWords (Some (''apple'' @ CHR 0x0A # ''baker'')) = Inr [''apple'', ''baker'']"
    by (simp add: readWords_def readWords_loop.simps readLine_def readLine_loop.simps getc_def
        to_char_def ungetc_def EOF_def LINE_FEED_def LOWERCASE_A_def LOWERCASE_Z_def
        WORD_LEN_def WORD_LIMIT_def INITIAL_CAPACITY_def Let_def char_of_def)
  have a: "ascending [''apple'', ''baker'']"
    by (simp add: ascending_def)
  have m: "mset s = mset [''baker'', ''apple''] \<Longrightarrow> ascending s \<Longrightarrow> s = [''apple'', ''baker'']" for s
    using ascending_unique [OF _ a, of s] by simp
  have one: "main_startup (Some (''baker'' @ CHR 0x0A # ''apple'')) 1
      = Some (Inr (''apple'', [''apple'', ''baker'']))"
    using main_startup_target [OF r, of 1] m by auto
  have two: "main_startup (Some (''apple'' @ CHR 0x0A # ''baker'')) 1
      = Some (Inr (''baker'', [''apple'', ''baker'']))"
    using main_startup_target [OF r', of 1] a by auto
  from r r' a one two show ?thesis
    by simp
qed

section \<open>The seed argument\<close>

lemma getSeed_overflow: "getSeed ''9223372036854775808'' = Inr (- (2 ^ 63))"
  by (simp add: getSeed_def to_char_def s64_def NUMBER_0_def NUMBER_9_def BASE_10_def Let_def)

lemma getSeed_largest: "getSeed ''9223372036854775807'' = Inr (2 ^ 63 - 1)"
  by (simp add: getSeed_def to_char_def s64_def NUMBER_0_def NUMBER_9_def BASE_10_def Let_def)

lemma getSeed_rejected: "getSeed ''92233720368547758070'' = Inl UsageError"
  by (simp add: getSeed_def to_char_def s64_def NUMBER_0_def NUMBER_9_def BASE_10_def Let_def)

text \<open>
  With a seed argument that is parsed to a number that is not negative, the
  start of \<open>main\<close> has a defined outcome after every successful load.
\<close>

lemma main_seed_argument_defined:
  assumes "readWords file = Inr wordList" and "getSeed str = Inr seed" and "0 \<le> seed"
  shows "main_seed_argument file str \<noteq> None"
proof -
  from main_startup_Inr [OF assms(1,3)] have "main_startup file seed \<noteq> None"
    by auto
  with assms(1,2) show ?thesis
    by (simp add: main_seed_argument_def)
qed

text \<open>
  C10 asks that after every successful load the index computed by
  \<open>chooseWord\<close> and its read of the word list are in bounds. The word
  list is never empty and never longer than \<open>WORD_LIMIT\<close>
  (\<open>chooseWord_after_load\<close>), but the seed can be negative: \<open>getSeed\<close>
  tests the sign after the multiplication by ten and not after the addition of
  the digit, so the argument 9223372036854775808 is accepted and parsed to
  \<open>- 2 ^ 63\<close>. With the three words apple, baker, candy loaded, the index
  is then \<open>- 1\<close>, and \<open>chooseWord\<close> reads outside the word list.
\<close>

theorem chooseWord_seed_overflow:
  "readWords (Some (''apple'' @ CHR 0x0A # ''baker'' @ CHR 0x0A # ''candy'' @ [CHR 0x0A]))
     = Inr [''apple'', ''baker'', ''candy'']
   \<and> getSeed ''9223372036854775808'' = Inr (- (2 ^ 63))
   \<and> randomIndex (- (2 ^ 63)) (int (length [''apple'', ''baker'', ''candy''])) = - 1
   \<and> chooseWord (- (2 ^ 63)) [''apple'', ''baker'', ''candy''] = None
   \<and> main_seed_argument
         (Some (''apple'' @ CHR 0x0A # ''baker'' @ CHR 0x0A # ''candy'' @ [CHR 0x0A]))
         ''9223372036854775808'' = None"
proof -
  have r: "readWords (Some (''apple'' @ CHR 0x0A # ''baker'' @ CHR 0x0A # ''candy'' @ [CHR 0x0A]))
      = Inr [''apple'', ''baker'', ''candy'']"
    by (simp add: readWords_def readWords_loop.simps readLine_def readLine_loop.simps getc_def
        to_char_def ungetc_def EOF_def LINE_FEED_def LOWERCASE_A_def LOWERCASE_Z_def
        WORD_LEN_def WORD_LIMIT_def INITIAL_CAPACITY_def Let_def char_of_def)
  have i: "randomIndex (- (2 ^ 63)) (int (length [''apple'', ''baker'', ''candy''])) = - 1"
    by (simp add: randomIndex_def s64_def signed_modulo_int_def MULTIPLIER_def)
  have c: "chooseWord (- (2 ^ 63)) [''apple'', ''baker'', ''candy''] = None"
    using i by (simp add: chooseWord_def Let_def)
  have m: "main_seed_argument
        (Some (''apple'' @ CHR 0x0A # ''baker'' @ CHR 0x0A # ''candy'' @ [CHR 0x0A]))
        ''9223372036854775808'' = None"
    using r c getSeed_overflow by (simp add: main_seed_argument_def main_startup_def)
  from r getSeed_overflow i c m show ?thesis
    by simp
qed

section \<open>processWord and the two-pass classification\<close>

lemma printed_append: "printed (xs @ ys) c = printed xs c @ printed ys (in_force xs c)"
  by (induction xs c rule: printed.induct) simp_all

lemma in_force_append: "in_force (xs @ ys) c = in_force ys (in_force xs c)"
  by (induction xs c rule: in_force.induct) simp_all

lemma setColor_green:
  assumes "setColor green ColorGreen currentColor out = (cc, out')"
    and "in_force out c = currentColor"
  shows "cc = green \<and> in_force out' c = green \<and> printed out' c = printed out c"
  using assms by (auto simp: setColor_def printed_append in_force_append split: if_splits)

lemma setColor_yellow:
  assumes "setColor yellow ColorYellow currentColor out = (cc, out')"
    and "in_force out c = currentColor"
  shows "cc = yellow \<and> in_force out' c = yellow \<and> printed out' c = printed out c"
  using assms by (auto simp: setColor_def printed_append in_force_append split: if_splits)

lemma setColor_default:
  assumes "setColor defaultColor ColorDefault currentColor out = (cc, out')"
    and "in_force out c = currentColor"
  shows "cc = defaultColor \<and> in_force out' c = defaultColor \<and> printed out' c = printed out c"
  using assms by (auto simp: setColor_def printed_append in_force_append split: if_splits)

lemma truthTable_loop_eq:
  "i \<le> length userWord \<Longrightarrow> length targetLetterUsed = length userWord \<Longrightarrow>
     truthTable_loop userWord targetWord i targetLetterUsed =
       take i targetLetterUsed @ map (\<lambda>k. userWord ! k = targetWord ! k) [i..<length userWord]"
proof (induction userWord targetWord i targetLetterUsed rule: truthTable_loop.induct)
  case (1 userWord targetWord i targetLetterUsed)
  show ?case
  proof (cases "i < length userWord")
    case False
    with "1.prems" show ?thesis
      by (subst truthTable_loop.simps) simp
  next
    case True
    have "truthTable_loop userWord targetWord i targetLetterUsed =
        truthTable_loop userWord targetWord (i + 1)
          (targetLetterUsed[i := (userWord ! i = targetWord ! i)])"
      using True by (subst truthTable_loop.simps) simp
    also have "\<dots> = take (i + 1) (targetLetterUsed[i := (userWord ! i = targetWord ! i)]) @
        map (\<lambda>k. userWord ! k = targetWord ! k) [i + 1..<length userWord]"
      using True "1.prems" by (intro "1.IH") simp_all
    also have "\<dots> = take i targetLetterUsed @
        map (\<lambda>k. userWord ! k = targetWord ! k) [i..<length userWord]"
      using True "1.prems" by (simp add: take_Suc_conv_app_nth upt_conv_Cons)
    finally show ?thesis .
  qed
qed

lemma truthTable_first_pass:
  "length targetLetterUsed = length userWord \<Longrightarrow> length targetWord = length userWord \<Longrightarrow>
     truthTable_loop userWord targetWord 0 targetLetterUsed = first_pass userWord targetWord"
  by (simp add: truthTable_loop_eq first_pass_def)

lemma target_loop_eq:
  "target_loop userWord targetWord i j targetLetterUsed =
     (case filter (\<lambda>j. userWord ! i = targetWord ! j \<and> \<not> targetLetterUsed ! j)
             [j..<length targetWord] of
        [] \<Rightarrow> None
      | k # _ \<Rightarrow> Some k)"
proof (induction userWord targetWord i j targetLetterUsed rule: target_loop.induct)
  case (1 userWord targetWord i j targetLetterUsed)
  show ?case
  proof (cases "j < length targetWord")
    case False
    then show ?thesis
      by (subst target_loop.simps) simp
  next
    case True
    show ?thesis
    proof (cases "userWord ! i = targetWord ! j \<and> \<not> targetLetterUsed ! j")
      case found: True
      with True show ?thesis
        by (subst target_loop.simps) (simp add: upt_conv_Cons)
    next
      case other: False
      have "target_loop userWord targetWord i j targetLetterUsed =
          target_loop userWord targetWord i (j + 1) targetLetterUsed"
        by (subst target_loop.simps) (simp only: True other if_True if_False)
      also note "1.IH" [OF True other]
      also have "filter (\<lambda>j. userWord ! i = targetWord ! j \<and> \<not> targetLetterUsed ! j)
            [j + 1..<length targetWord]
          = filter (\<lambda>j. userWord ! i = targetWord ! j \<and> \<not> targetLetterUsed ! j)
            [j..<length targetWord]"
        using True other by (subst (2) upt_conv_Cons) auto
      finally show ?thesis .
    qed
  qed
qed

lemma target_loop_lowest_unclaimed:
  "target_loop userWord targetWord i 0 targetLetterUsed =
     lowest_unclaimed (userWord ! i) targetWord targetLetterUsed"
  by (simp add: target_loop_eq lowest_unclaimed_def)

lemma userWord_loop_eq:
  "userWord_loop userWord targetWord i currentColor targetLetterUsed out = (cc, out') \<Longrightarrow>
   i \<le> length userWord \<Longrightarrow> in_force out c = currentColor \<Longrightarrow>
   printed out' c = printed out c @
     zip (drop i userWord)
       (map color_of (second_pass userWord targetWord [i..<length userWord] targetLetterUsed))
   \<and> in_force out' c = cc"
proof (induction userWord targetWord i currentColor targetLetterUsed out
    rule: userWord_loop.induct)
  case (1 userWord targetWord i currentColor targetLetterUsed out)
  show ?case
  proof (cases "i < length userWord")
    case False
    with "1.prems" show ?thesis
      by (subst (asm) userWord_loop.simps) simp
  next
    case True
    have dr: "drop i userWord = userWord ! i # drop (i + 1) userWord"
      using True by (simp add: Cons_nth_drop_Suc)
    have up: "[i..<length userWord] = i # [i + 1..<length userWord]"
      using True by (simp add: upt_conv_Cons)
    show ?thesis
    proof (cases "userWord ! i = targetWord ! i")
      case correct: True
      obtain cc1 out1 where sc: "setColor green ColorGreen currentColor out = (cc1, out1)"
        by (cases "setColor green ColorGreen currentColor out")
      note col = setColor_green [OF sc "1.prems"(3)]
      have run: "userWord_loop userWord targetWord (i + 1) cc1 targetLetterUsed
          (out1 @ [Putc (userWord ! i)]) = (cc, out')"
        using "1.prems"(1) True correct sc by (subst (asm) userWord_loop.simps) simp
      have "in_force (out1 @ [Putc (userWord ! i)]) c = cc1"
        using col by (simp add: in_force_append)
      from "1.IH"(1) [OF True correct sc [symmetric] refl run _ this] True
      have "printed out' c = printed (out1 @ [Putc (userWord ! i)]) c @
          zip (drop (i + 1) userWord)
            (map color_of (second_pass userWord targetWord [i + 1..<length userWord]
              targetLetterUsed))
        \<and> in_force out' c = cc"
        by simp
      then show ?thesis
        using col correct by (simp add: printed_append dr up)
    next
      case wrong: False
      show ?thesis
      proof (cases "target_loop userWord targetWord i 0 targetLetterUsed")
        case None
        obtain cc1 out1 where
          sc: "setColor defaultColor ColorDefault currentColor out = (cc1, out1)"
          by (cases "setColor defaultColor ColorDefault currentColor out")
        note col = setColor_default [OF sc "1.prems"(3)]
        have run: "userWord_loop userWord targetWord (i + 1) cc1 targetLetterUsed
            (out1 @ [Putc (userWord ! i)]) = (cc, out')"
          using "1.prems"(1) True wrong None sc by (subst (asm) userWord_loop.simps) simp
        have "in_force (out1 @ [Putc (userWord ! i)]) c = cc1"
          using col by (simp add: in_force_append)
        from "1.IH"(2) [OF True wrong None sc [symmetric] refl run _ this] True
        have "printed out' c = printed (out1 @ [Putc (userWord ! i)]) c @
            zip (drop (i + 1) userWord)
              (map color_of (second_pass userWord targetWord [i + 1..<length userWord]
                targetLetterUsed))
          \<and> in_force out' c = cc"
          by simp
        then show ?thesis
          using col wrong None
          by (simp add: printed_append dr up target_loop_lowest_unclaimed [symmetric])
      next
        case (Some j)
        obtain cc1 out1 where sc: "setColor yellow ColorYellow currentColor out = (cc1, out1)"
          by (cases "setColor yellow ColorYellow currentColor out")
        note col = setColor_yellow [OF sc "1.prems"(3)]
        have run: "userWord_loop userWord targetWord (i + 1) cc1 (targetLetterUsed[j := True])
            (out1 @ [Putc (userWord ! i)]) = (cc, out')"
          using "1.prems"(1) True wrong Some sc by (subst (asm) userWord_loop.simps) simp
        have "in_force (out1 @ [Putc (userWord ! i)]) c = cc1"
          using col by (simp add: in_force_append)
        from "1.IH"(3) [OF True wrong Some refl sc [symmetric] refl run _ this] True
        have "printed out' c = printed (out1 @ [Putc (userWord ! i)]) c @
            zip (drop (i + 1) userWord)
              (map color_of (second_pass userWord targetWord [i + 1..<length userWord]
                (targetLetterUsed[j := True])))
          \<and> in_force out' c = cc"
          by simp
        then show ?thesis
          using col wrong Some
          by (simp add: printed_append dr up target_loop_lowest_unclaimed [symmetric])
      qed
    qed
  qed
qed

lemma processWord_printed:
  assumes "length targetWord = length userWord" and "length targetLetterUsed = length userWord"
  shows "printed (processWord userWord targetWord targetLetterUsed) defaultColor =
     zip userWord (map color_of (classify userWord targetWord)) @ [(CHR 0x0A, defaultColor)]"
proof -
  let ?tbl = "first_pass userWord targetWord"
  obtain cc out where
    run: "userWord_loop userWord targetWord 0 defaultColor ?tbl [] = (cc, out)"
    by (cases "userWord_loop userWord targetWord 0 defaultColor ?tbl []")
  obtain cc' out' where sc: "setColor defaultColor ColorDefault cc out = (cc', out')"
    by (cases "setColor defaultColor ColorDefault cc out")
  from userWord_loop_eq [OF run, of defaultColor]
  have out: "printed out defaultColor = zip userWord (map color_of (classify userWord targetWord))"
    and cc: "in_force out defaultColor = cc"
    by (simp_all add: classify_def)
  note col = setColor_default [OF sc cc]
  have "processWord userWord targetWord targetLetterUsed = out' @ [Putc (CHR 0x0A)]"
    using assms run sc by (simp add: processWord_def truthTable_first_pass)
  then show ?thesis
    using col out by (simp add: printed_append)
qed

lemma color_of_inj: "color_of r = color_of r' \<longleftrightarrow> r = r'"
  by (cases r; cases r') (simp_all add: green_def yellow_def defaultColor_def)

lemma length_second_pass: "length (second_pass guess target positions claimed) = length positions"
  by (induction positions arbitrary: claimed) (simp_all split: option.splits)

text \<open>
  C1. For a guess and a target of length \<open>WORD_LEN\<close>, whatever the local
  table holds before the first loop, \<open>processWord\<close> writes the letters of
  the guess in their order, each in the colour of its class in the two-pass
  classification of the specification (green for Correct, yellow for Present,
  the default colour for Absent), and then a line feed in the default colour.
\<close>

theorem processWord_classify:
  assumes "length guess = WORD_LEN" and "length target = WORD_LEN"
    and "length targetLetterUsed = WORD_LEN"
  shows "printed (processWord guess target targetLetterUsed) defaultColor =
           zip guess (map color_of (classify guess target)) @ [(CHR 0x0A, defaultColor)]
       \<and> length (classify guess target) = length guess
       \<and> map snd (take WORD_LEN (printed (processWord guess target targetLetterUsed) defaultColor))
           = map color_of (classify guess target)"
proof -
  have p: "printed (processWord guess target targetLetterUsed) defaultColor =
      zip guess (map color_of (classify guess target)) @ [(CHR 0x0A, defaultColor)]"
    using assms by (intro processWord_printed) simp_all
  have l: "length (classify guess target) = length guess"
    by (simp add: classify_def length_second_pass)
  from p l assms(1) show ?thesis
    by simp
qed

theorem processWord_classify_witness:
  "length ''deeds'' = WORD_LEN \<and> length ''speed'' = WORD_LEN
   \<and> length [True, False, True, True, False] = WORD_LEN
   \<and> classify ''deeds'' ''speed'' = [Present, Present, Correct, Absent, Present]
   \<and> printed (processWord ''deeds'' ''speed'' [True, False, True, True, False]) defaultColor =
       [(CHR ''d'', yellow), (CHR ''e'', yellow), (CHR ''e'', green),
        (CHR ''d'', defaultColor), (CHR ''s'', yellow), (CHR 0x0A, defaultColor)]"
proof -
  have c: "classify ''deeds'' ''speed'' = [Present, Present, Correct, Absent, Present]"
    by code_simp
  from processWord_classify [of "''deeds''" "''speed''" "[True, False, True, True, False]"] c
  show ?thesis
    by (simp add: WORD_LEN_def)
qed

section \<open>Counting the letters that are matched\<close>

lemma length_filter_upt: "length (filter P [0..<n]) = card {k. k < n \<and> P k}"
proof -
  have "{i. i < length [0..<n] \<and> P ([0..<n] ! i)} = {k. k < n \<and> P k}"
    by auto
  then show ?thesis
    by (simp add: length_filter_conv_card)
qed

lemma lowest_unclaimed_None:
  "lowest_unclaimed c target claimed = None \<Longrightarrow>
     length (filter (\<lambda>j. c = target ! j \<and> \<not> claimed ! j) [0..<length target]) = 0"
  by (simp add: lowest_unclaimed_def split: list.splits)

lemma lowest_unclaimed_Some:
  assumes "lowest_unclaimed c target claimed = Some j"
  shows "j < length target \<and> c = target ! j \<and> \<not> claimed ! j"
proof -
  from assms obtain rest where
    "filter (\<lambda>j. c = target ! j \<and> \<not> claimed ! j) [0..<length target] = j # rest"
    by (auto simp: lowest_unclaimed_def split: list.splits)
  then have "j \<in> set (filter (\<lambda>j. c = target ! j \<and> \<not> claimed ! j) [0..<length target])"
    by (simp only: list.set_intros)
  then show ?thesis
    by simp
qed

lemma unclaimed_after_claim:
  assumes "j < length target" and "length claimed = length target" and "\<not> claimed ! j"
  shows "length (filter (\<lambda>k. c = target ! k \<and> \<not> claimed[j := True] ! k) [0..<length target]) =
     (if c = target ! j
      then length (filter (\<lambda>k. c = target ! k \<and> \<not> claimed ! k) [0..<length target]) - 1
      else length (filter (\<lambda>k. c = target ! k \<and> \<not> claimed ! k) [0..<length target]))"
proof -
  let ?S = "{k. k < length target \<and> c = target ! k \<and> \<not> claimed ! k}"
  have s: "{k. k < length target \<and> c = target ! k \<and> \<not> claimed[j := True] ! k} = ?S - {j}"
    using assms(1,2) by (auto simp: nth_list_update)
  have fin: "finite ?S"
    by simp
  have new: "length (filter (\<lambda>k. c = target ! k \<and> \<not> claimed[j := True] ! k) [0..<length target])
      = card (?S - {j})"
    by (simp only: length_filter_upt s)
  have old: "length (filter (\<lambda>k. c = target ! k \<and> \<not> claimed ! k) [0..<length target]) = card ?S"
    by (simp only: length_filter_upt)
  show ?thesis
  proof (cases "c = target ! j")
    case True
    with assms have "j \<in> ?S"
      by simp
    with fin have "card (?S - {j}) = card ?S - 1"
      by (simp add: card_Diff_singleton)
    then show ?thesis
      unfolding new old using True by simp
  next
    case False
    then have "?S - {j} = ?S"
      by auto
    then show ?thesis
      unfolding new old using False by simp
  qed
qed

lemma lowest_unclaimed_Some_pos:
  "lowest_unclaimed c target claimed = Some j \<Longrightarrow>
     0 < length (filter (\<lambda>j. c = target ! j \<and> \<not> claimed ! j) [0..<length target])"
  by (auto simp: lowest_unclaimed_def split: list.splits)

lemma length_filter_split:
  "length (filter P xs) =
     length (filter (\<lambda>x. P x \<and> Q x) xs) + length (filter (\<lambda>x. P x \<and> \<not> Q x) xs)"
  by (induction xs) simp_all

text \<open>
  Over any list of guess positions: the positions with letter \<open>c\<close> that are
  not Absent are the exact matches, plus as many of the others as there are
  unclaimed target positions with letter \<open>c\<close>.
\<close>

lemma second_pass_count:
  "length claimed = length target \<Longrightarrow>
   length (filter (\<lambda>(k, r). guess ! k = c \<and> r \<noteq> Absent)
             (zip positions (second_pass guess target positions claimed)))
     = length (filter (\<lambda>k. guess ! k = c \<and> guess ! k = target ! k) positions)
       + min (length (filter (\<lambda>k. guess ! k = c \<and> guess ! k \<noteq> target ! k) positions))
             (length (filter (\<lambda>j. c = target ! j \<and> \<not> claimed ! j) [0..<length target]))"
proof (induction positions arbitrary: claimed)
  case Nil
  then show ?case by simp
next
  case (Cons i positions)
  show ?case
  proof (cases "guess ! i = target ! i")
    case True
    with Cons.IH [OF Cons.prems] show ?thesis
      by simp
  next
    case False
    show ?thesis
    proof (cases "lowest_unclaimed (guess ! i) target claimed")
      case None
      show ?thesis
      proof (cases "guess ! i = c")
        case True
        with None have "length (filter (\<lambda>j. c = target ! j \<and> \<not> claimed ! j) [0..<length target]) = 0"
          using lowest_unclaimed_None by blast
        with Cons.IH [OF Cons.prems] False None True show ?thesis
          by simp
      next
        case other: False
        with Cons.IH [OF Cons.prems] False None show ?thesis
          by simp
      qed
    next
      case (Some j)
      note j = lowest_unclaimed_Some [OF Some]
      have len: "length (claimed[j := True]) = length target"
        using Cons.prems by simp
      note after = unclaimed_after_claim [of j target claimed c, OF _ Cons.prems]
      show ?thesis
      proof (cases "guess ! i = c")
        case True
        let ?F = "length (filter (\<lambda>k. c = target ! k \<and> \<not> claimed ! k) [0..<length target])"
        let ?M = "length (filter (\<lambda>k. guess ! k = c \<and> guess ! k \<noteq> target ! k) positions)"
        let ?E = "length (filter (\<lambda>k. guess ! k = c \<and> guess ! k = target ! k) positions)"
        from True j after have F': "length (filter (\<lambda>k. c = target ! k \<and> \<not> claimed[j := True] ! k)
              [0..<length target]) = ?F - 1"
          by simp
        have pos: "0 < ?F"
          using lowest_unclaimed_Some_pos [OF Some] True by simp
        have lhs: "length (filter (\<lambda>(k, r). guess ! k = c \<and> r \<noteq> Absent)
              (zip (i # positions) (second_pass guess target (i # positions) claimed)))
            = Suc (length (filter (\<lambda>(k, r). guess ! k = c \<and> r \<noteq> Absent)
              (zip positions (second_pass guess target positions (claimed[j := True])))))"
          using False Some True by simp
        have rhs1: "length (filter (\<lambda>k. guess ! k = c \<and> guess ! k = target ! k) (i # positions))
            = ?E"
          using False by simp
        have rhs2: "length (filter (\<lambda>k. guess ! k = c \<and> guess ! k \<noteq> target ! k) (i # positions))
            = Suc ?M"
          using False True by simp
        have ar: "Suc (E + min M (F - 1)) = E + min (Suc M) F" if "0 < F" for E M F :: nat
          using that by (cases F) simp_all
        show ?thesis
          unfolding lhs rhs1 rhs2 Cons.IH [OF len] F' by (rule ar [OF pos])
      next
        case other: False
        with j after have "length (filter (\<lambda>k. c = target ! k \<and> \<not> claimed[j := True] ! k)
              [0..<length target])
            = length (filter (\<lambda>k. c = target ! k \<and> \<not> claimed ! k) [0..<length target])"
          by auto
        then show ?thesis
          using Cons.IH [OF len] False Some other by simp
      qed
    qed
  qed
qed

lemma classify_count:
  assumes "length target = length guess"
  shows "length (filter (\<lambda>(k, r). guess ! k = c \<and> r \<noteq> Absent)
             (zip [0..<length guess] (classify guess target)))
     = min (count_list guess c) (count_list target c)"
proof -
  let ?n = "length guess"
  let ?e = "length (filter (\<lambda>k. guess ! k = c \<and> guess ! k = target ! k) [0..<?n])"
  let ?m = "length (filter (\<lambda>k. guess ! k = c \<and> guess ! k \<noteq> target ! k) [0..<?n])"
  let ?f = "length (filter (\<lambda>j. c = target ! j \<and> \<not> first_pass guess target ! j)
      [0..<length target])"
  have count: "length (filter (\<lambda>(k, r). guess ! k = c \<and> r \<noteq> Absent)
      (zip [0..<?n] (classify guess target))) = ?e + min ?m ?f"
    unfolding classify_def
    by (rule second_pass_count) (simp add: first_pass_def)
  have nth_count: "count_list xs c = length (filter (\<lambda>k. xs ! k = c) [0..<length xs])"
    for xs :: string
  proof -
    have "count_list xs c = length (filter ((=) c) (map ((!) xs) [0..<length xs]))"
      by (simp only: map_nth count_list_eq_length_filter)
    also have "\<dots> = length (filter (\<lambda>k. c = xs ! k) [0..<length xs])"
      by (simp add: filter_map comp_def)
    also have "filter (\<lambda>k. c = xs ! k) [0..<length xs] = filter (\<lambda>k. xs ! k = c) [0..<length xs]"
      by (rule filter_cong) auto
    finally show ?thesis .
  qed
  have g: "count_list guess c = ?e + ?m"
    unfolding nth_count by (rule length_filter_split)
  have "filter (\<lambda>j. c = target ! j \<and> \<not> first_pass guess target ! j) [0..<length target]
      = filter (\<lambda>j. target ! j = c \<and> \<not> guess ! j = target ! j) [0..<length target]"
    by (rule filter_cong) (auto simp: first_pass_def)
  then have f: "?f = length (filter (\<lambda>j. target ! j = c \<and> \<not> guess ! j = target ! j)
      [0..<length target])"
    by simp
  have "filter (\<lambda>k. guess ! k = c \<and> guess ! k = target ! k) [0..<?n]
      = filter (\<lambda>j. target ! j = c \<and> guess ! j = target ! j) [0..<length target]"
    unfolding assms by (rule filter_cong) auto
  then have e: "?e = length (filter (\<lambda>j. target ! j = c \<and> guess ! j = target ! j)
      [0..<length target])"
    by simp
  have t: "count_list target c = ?e + ?f"
    unfolding nth_count e f by (rule length_filter_split)
  show ?thesis
    unfolding count g t by simp
qed

lemma matched_letters:
  assumes "length rs = length guess"
  shows "length (filter (\<lambda>(ch, col). ch = c \<and> (col = green \<or> col = yellow))
            (zip guess (map color_of rs)))
     = length (filter (\<lambda>(k, r). guess ! k = c \<and> r \<noteq> Absent) (zip [0..<length guess] rs))"
proof -
  have col: "color_of r = green \<or> color_of r = yellow \<longleftrightarrow> r \<noteq> Absent" for r
    by (cases r) (simp_all add: green_def yellow_def defaultColor_def)
  have "zip guess (map color_of rs) = zip (map ((!) guess) [0..<length guess]) (map color_of rs)"
    by (simp add: map_nth)
  also have "\<dots> = map (\<lambda>(k, r). (guess ! k, color_of r)) (zip [0..<length guess] rs)"
    by (rule zip_map_map)
  finally have z: "zip guess (map color_of rs)
      = map (\<lambda>(k, r). (guess ! k, color_of r)) (zip [0..<length guess] rs)" .
  have "length (filter (\<lambda>(ch, col). ch = c \<and> (col = green \<or> col = yellow))
        (map (\<lambda>(k, r). (guess ! k, color_of r)) (zip [0..<length guess] rs)))
      = length (filter ((\<lambda>(ch, col). ch = c \<and> (col = green \<or> col = yellow)) \<circ>
          (\<lambda>(k, r). (guess ! k, color_of r))) (zip [0..<length guess] rs))"
    by (simp only: filter_map length_map)
  also have "(\<lambda>(ch, col). ch = c \<and> (col = green \<or> col = yellow)) \<circ>
      (\<lambda>(k, r). (guess ! k, color_of r)) = (\<lambda>(k, r). guess ! k = c \<and> r \<noteq> Absent)"
    by (auto simp: fun_eq_iff col)
  finally show ?thesis
    unfolding z .
qed

text \<open>
  C2. For a guess and a target of length \<open>WORD_LEN\<close> and every letter
  \<open>c\<close>: the number of letters \<open>c\<close> that \<open>processWord\<close> writes in
  green or yellow (Correct or Present) is the smaller of the numbers of
  occurrences of \<open>c\<close> in the guess and in the target. The guess deeds
  against the target speed is written yellow, yellow, green, default, yellow:
  Present, Present, Correct, Absent, Present.
\<close>

theorem processWord_matched_count:
  assumes "length guess = WORD_LEN" and "length target = WORD_LEN"
    and "length targetLetterUsed = WORD_LEN"
  shows "length (filter (\<lambda>(ch, col). ch = c \<and> (col = green \<or> col = yellow))
            (printed (processWord guess target targetLetterUsed) defaultColor))
           = min (count_list guess c) (count_list target c)
       \<and> length (filter (\<lambda>(k, r). guess ! k = c \<and> (r = Correct \<or> r = Present))
            (zip [0..<length guess] (classify guess target)))
           = min (count_list guess c) (count_list target c)
       \<and> classify ''deeds'' ''speed'' = [Present, Present, Correct, Absent, Present]
       \<and> map snd (printed (processWord ''deeds'' ''speed'' targetLetterUsed) defaultColor)
           = [yellow, yellow, green, defaultColor, yellow, defaultColor]"
proof -
  have len: "length target = length guess" "length targetLetterUsed = length guess"
    using assms by simp_all
  have l: "length (classify guess target) = length guess"
    by (simp add: classify_def length_second_pass)
  have nl: "\<not> (defaultColor = green \<or> defaultColor = yellow)"
    by (simp add: green_def yellow_def defaultColor_def)
  have a: "length (filter (\<lambda>(ch, col). ch = c \<and> (col = green \<or> col = yellow))
        (printed (processWord guess target targetLetterUsed) defaultColor))
      = min (count_list guess c) (count_list target c)"
    unfolding processWord_printed [OF len]
    using nl by (simp add: matched_letters [OF l] classify_count [OF len(1)])
  have r: "(r = Correct \<or> r = Present) \<longleftrightarrow> r \<noteq> Absent" for r
    by (cases r) simp_all
  have b: "length (filter (\<lambda>(k, r). guess ! k = c \<and> (r = Correct \<or> r = Present))
        (zip [0..<length guess] (classify guess target)))
      = min (count_list guess c) (count_list target c)"
    unfolding r by (rule classify_count [OF len(1)])
  have c: "classify ''deeds'' ''speed'' = [Present, Present, Correct, Absent, Present]"
    by code_simp
  have "length ''speed'' = length ''deeds''" "length targetLetterUsed = length ''deeds''"
    using assms(3) by (simp_all add: WORD_LEN_def)
  from processWord_printed [OF this]
  have d: "map snd (printed (processWord ''deeds'' ''speed'' targetLetterUsed) defaultColor)
      = [yellow, yellow, green, defaultColor, yellow, defaultColor]"
    by (simp add: c)
  from a b c d show ?thesis
    by simp
qed

theorem processWord_matched_count_witness:
  "length ''eerie'' = WORD_LEN \<and> length ''speed'' = WORD_LEN
   \<and> length [False, True, False, True, True] = WORD_LEN
   \<and> printed (processWord ''eerie'' ''speed'' [False, True, False, True, True]) defaultColor
       = [(CHR ''e'', yellow), (CHR ''e'', yellow), (CHR ''r'', defaultColor),
          (CHR ''i'', defaultColor), (CHR ''e'', defaultColor), (CHR 0x0A, defaultColor)]
   \<and> length (filter (\<lambda>(ch, col). ch = CHR ''e'' \<and> (col = green \<or> col = yellow))
        (printed (processWord ''eerie'' ''speed'' [False, True, False, True, True]) defaultColor))
       = 2
   \<and> min (count_list ''eerie'' (CHR ''e'')) (count_list ''speed'' (CHR ''e'')) = 2"
proof -
  have l: "length ''speed'' = length ''eerie''"
    "length [False, True, False, True, True] = length ''eerie''"
    by simp_all
  have c: "classify ''eerie'' ''speed'' = [Present, Present, Absent, Absent, Absent]"
    by code_simp
  from processWord_matched_count [of "''eerie''" "''speed''" "[False, True, False, True, True]"
      "CHR ''e''"] processWord_printed [OF l] c
  show ?thesis
    by (simp add: WORD_LEN_def)
qed

end
